theory Spec2Isabelle
  imports Complex_Main "HOL-Library.Multiset" "HOL-Library.Char_ord" "HOL-Library.List_Lexorder"
    "HOL-Library.Product_Lexorder" "HOL-Library.AList"
begin

section \<open>Errors\<close>

text \<open>
  The exceptions that the script and the library calls it makes can raise on the paths
  modelled here.  Every fallible function returns \<open>error + 'a\<close>, with \<open>Inl\<close> the exception.
\<close>

datatype error = NotADirectoryError | ValueError | ZeroDivisionError | IndexError

section \<open>The directory tree\<close>

text \<open>
  A directory is the list of its entries, in the order in which \<open>os.scandir\<close> happens to
  return them; an entry is a name and either a file or a directory.
\<close>

datatype node = File | Dir "(string \<times> node) list"

fun is_dir :: "node \<Rightarrow> bool" where
  "is_dir (Dir es) = True"
| "is_dir File = False"

text \<open>\<open>os.path.join\<close> for two components (POSIX).\<close>

definition join :: "string \<Rightarrow> string \<Rightarrow> string" where
  "join a b = (if b \<noteq> [] \<and> hd b = CHR ''/'' then b
               else if a = [] \<or> last a = CHR ''/'' then a @ b
               else a @ CHR ''/'' # b)"

text \<open>
  \<open>os.walk(top)\<close>, top-down: the triple \<open>(top, dirnames, filenames)\<close> of the directory
  itself, then the walks of its subdirectories.  On something that is not a directory it
  yields nothing.
\<close>

fun walk :: "string \<Rightarrow> node \<Rightarrow> (string \<times> string list \<times> string list) list" where
  "walk top_dir File = []"
| "walk top_dir (Dir es) =
     (top_dir, [fst e. e \<leftarrow> es, is_dir (snd e)], [fst e. e \<leftarrow> es, \<not> is_dir (snd e)])
     # concat (map (\<lambda>e. walk (join top_dir (fst e)) (snd e)) (filter (\<lambda>e. is_dir (snd e)) es))"

section \<open>CustomImageFolder: the sample catalog\<close>

text \<open>\<open>str.lower\<close> on the letters A to Z and \<open>str.endswith\<close>.\<close>

definition lower_char :: "char \<Rightarrow> char" where
  "lower_char c =
     (if CHR ''A'' \<le> c \<and> c \<le> CHR ''Z'' then char_of (of_char c + (32::nat)) else c)"

definition lower :: "string \<Rightarrow> string" where
  "lower s = map lower_char s"

definition endswith :: "string \<Rightarrow> string \<Rightarrow> bool" where
  "endswith s suffix = (length suffix \<le> length s \<and> drop (length s - length suffix) s = suffix)"

definition extensions :: "string list" where
  "extensions = [''.jpg'', ''.jpeg'', ''.png'', ''.bmp'', ''.gif'']"

definition is_image_file :: "string \<Rightarrow> bool" where
  "is_image_file filename = list_ex (\<lambda>ext. endswith (lower filename) ext) extensions"

text \<open>
  The dict comprehension \<open>{cls_name: i for i, cls_name in enumerate(classes)}\<close>: a Python
  dict keeps a key at the position of its first insertion and takes the last value
  written, which is what \<open>AList.update\<close> does on an association list.
\<close>

definition dict_of_enumerate :: "string list \<Rightarrow> (string \<times> nat) list" where
  "dict_of_enumerate cls =
     foldl (\<lambda>d ic. AList.update (snd ic) (fst ic) d) [] (enumerate 0 cls)"

definition find_classes :: "(string \<times> node) list \<Rightarrow> string list \<times> (string \<times> nat) list" where
  "find_classes entries =
     (let classes = sort [fst e. e \<leftarrow> entries, is_dir (snd e)]
      in (classes, dict_of_enumerate classes))"

text \<open>
  The two inner loops of \<open>_make_dataset\<close> for one class directory: the directories of
  the walk in sorted order, the file names of each in sorted order, the image filter on
  the joined path.
\<close>

definition class_images :: "string \<Rightarrow> node \<Rightarrow> nat \<Rightarrow> (string \<times> nat) list" where
  "class_images target_dir d class_index =
     concat (map (\<lambda>w. concat (map (\<lambda>fname.
                    let path = join (fst w) fname
                    in if is_image_file path then [(path, class_index)] else [])
                  (sort (snd (snd w)))))
             (sort (walk target_dir d)))"

definition make_dataset ::
    "string \<Rightarrow> (string \<times> node) list \<Rightarrow> (string \<times> nat) list \<Rightarrow> (string \<times> nat) list" where
  "make_dataset dir entries class_to_idx =
     concat (map (\<lambda>target_class.
               let class_index = the (map_of class_to_idx target_class);
                   target_dir = join dir target_class
               in case map_of entries target_class of
                    Some (Dir es) \<Rightarrow> class_images target_dir (Dir es) class_index
                  | _ \<Rightarrow> [])
             (sort (map fst class_to_idx)))"

record CustomImageFolder =
  classes :: "string list"
  class_to_idx :: "(string \<times> nat) list"
  samples :: "(string \<times> nat) list"

text \<open>
  The constructor.  \<open>os.scandir\<close> raises when the root is not a directory; nothing else
  in the constructor raises.
\<close>

definition CustomImageFolder_init :: "string \<Rightarrow> node \<Rightarrow> error + CustomImageFolder" where
  "CustomImageFolder_init root_path root_node =
     (case root_node of
        File \<Rightarrow> Inl NotADirectoryError
      | Dir entries \<Rightarrow>
          (let (cls, c2i) = find_classes entries
           in Inr \<lparr>classes = cls, class_to_idx = c2i,
                   samples = make_dataset root_path entries c2i\<rparr>))"

text \<open>\<open>__getitem__\<close>, up to the opaque image decoding: the entry at a position.\<close>

definition getitem :: "CustomImageFolder \<Rightarrow> nat \<Rightarrow> error + (string \<times> nat)" where
  "getitem dataset index =
     (if index < length (samples dataset) then Inr (samples dataset ! index)
      else Inl IndexError)"

section \<open>The random source\<close>

text \<open>
  A generator is the infinite sequence of raw draws it will produce; drawing consumes
  the head.  Every run of a real generator is such a sequence, so a statement for all
  sequences holds for every seed.
\<close>

type_synonym rng = "nat \<Rightarrow> nat"

definition randbelow :: "nat \<Rightarrow> rng \<Rightarrow> nat \<times> rng" where
  "randbelow bound r = (r 0 mod bound, (\<lambda>i. r (Suc i)))"

fun randint_list :: "nat \<Rightarrow> nat \<Rightarrow> rng \<Rightarrow> nat list \<times> rng" where
  "randint_list bound 0 r = ([], r)"
| "randint_list bound (Suc n) r =
     (let (j, r1) = randbelow bound r;
          (js, r2) = randint_list bound n r1
      in (j # js, r2))"

text \<open>
  \<open>shuffle\<close>: for \<open>i\<close> from the last position down to 1, swap position \<open>i\<close> with a
  position drawn from \<open>0..i\<close>.
\<close>

fun shuffle_from :: "nat \<Rightarrow> 'a list \<Rightarrow> rng \<Rightarrow> 'a list \<times> rng" where
  "shuffle_from 0 xs r = (xs, r)"
| "shuffle_from (Suc i) xs r =
     (let (j, r1) = randbelow (Suc (Suc i)) r
      in shuffle_from i (xs[Suc i := xs ! j, j := xs ! Suc i]) r1)"

definition shuffle :: "'a list \<Rightarrow> rng \<Rightarrow> 'a list \<times> rng" where
  "shuffle xs r = shuffle_from (length xs - 1) xs r"

definition permutation :: "nat \<Rightarrow> rng \<Rightarrow> nat list \<times> rng" where
  "permutation n r = shuffle [0..<n] r"

text \<open>
  \<open>numpy.random.choice(a, size, replace)\<close> on a one-dimensional array with uniform
  weights: an empty population is an error unless nothing is drawn; with replacement,
  \<open>size\<close> independent positions; without, a prefix of a permutation.
\<close>

definition choice :: "nat list \<Rightarrow> nat \<Rightarrow> bool \<Rightarrow> rng \<Rightarrow> error + (nat list \<times> rng)" where
  "choice a size_arg replace r =
     (if length a = 0 \<and> size_arg \<noteq> 0 then Inl ValueError
      else if replace then
        (let (idx, r1) = randint_list (length a) size_arg r
         in Inr (map (\<lambda>i. a ! i) idx, r1))
      else if size_arg > length a then Inl ValueError
      else
        (let (idx, r1) = permutation (length a) r
         in Inr (map (\<lambda>i. a ! i) (take size_arg idx), r1)))"

section \<open>get_data_loaders: balanced sampling and the split\<close>

text \<open>\<open>np.where(labels == class_idx)[0]\<close>: the positions of a class, ascending.\<close>

definition class_positions :: "(string \<times> nat) list \<Rightarrow> nat \<Rightarrow> nat list" where
  "class_positions smp class_idx = filter (\<lambda>i. snd (smp ! i) = class_idx) [0..<length smp]"

text \<open>
  The body of the sampling loop for one class: with replacement when the class has fewer
  than \<open>num_img_per_class\<close> entries, without otherwise.
\<close>

definition sample_class ::
    "(string \<times> nat) list \<Rightarrow> nat \<Rightarrow> nat \<Rightarrow> rng \<Rightarrow> error + (nat list \<times> rng)" where
  "sample_class smp num_img_per_class class_idx r =
     (let class_indices = class_positions smp class_idx
      in if length class_indices < num_img_per_class
         then choice class_indices num_img_per_class True r
         else choice class_indices num_img_per_class False r)"

text \<open>
  The loop over \<open>range(len(dataset.classes))\<close>, with the list \<open>indices\<close> it extends and
  the generator it consumes.
\<close>

fun sample_classes ::
    "(string \<times> nat) list \<Rightarrow> nat \<Rightarrow> nat list \<Rightarrow> nat list \<Rightarrow> rng \<Rightarrow> error + (nat list \<times> rng)" where
  "sample_classes smp num_img_per_class [] indices r = Inr (indices, r)"
| "sample_classes smp num_img_per_class (class_idx # rest) indices r =
     (case sample_class smp num_img_per_class class_idx r of
        Inl e \<Rightarrow> Inl e
      | Inr (chosen, r1) \<Rightarrow> sample_classes smp num_img_per_class rest (indices @ chosen) r1)"

definition balanced_indices :: "CustomImageFolder \<Rightarrow> nat \<Rightarrow> rng \<Rightarrow> error + (nat list \<times> rng)" where
  "balanced_indices dataset num_img_per_class r =
     sample_classes (samples dataset) num_img_per_class [0..<length (classes dataset)] [] r"

text \<open>
  \<open>int(0.8 * len(indices))\<close>.  The product is taken exactly here; the double nearest to 0.8
  exceeds it by a factor of \<open>1 + 2^-54\<close>, which moves no product across an integer for
  any list length a machine can hold, so the truncation is the same.
\<close>

definition split_point :: "nat \<Rightarrow> nat" where
  "split_point n = nat \<lfloor>(8 / 10 :: rat) * of_nat n\<rfloor>"

record DataLoader =
  dataset :: CustomImageFolder
  batch_size :: nat
  sampler :: "nat list"

text \<open>The loader's constructor refuses a batch size that is not positive.\<close>

definition DataLoader_init :: "CustomImageFolder \<Rightarrow> nat \<Rightarrow> nat list \<Rightarrow> error + DataLoader" where
  "DataLoader_init ds bs idxs =
     (if bs = 0 then Inl ValueError
      else Inr \<lparr>dataset = ds, batch_size = bs, sampler = idxs\<rparr>)"

definition split_indices :: "nat list \<Rightarrow> rng \<Rightarrow> (nat list \<times> nat list) \<times> rng" where
  "split_indices indices r =
     (let (shuffled, r1) = shuffle indices r;
          split = split_point (length shuffled)
      in ((take split shuffled, drop split shuffled), r1))"

definition get_data_loaders ::
    "string \<Rightarrow> node \<Rightarrow> nat \<Rightarrow> nat \<Rightarrow> rng \<Rightarrow> error + (DataLoader \<times> DataLoader \<times> rng)" where
  "get_data_loaders data_dir root_node bs num_img_per_class r =
     (case CustomImageFolder_init data_dir root_node of
        Inl e \<Rightarrow> Inl e
      | Inr ds \<Rightarrow>
          (case balanced_indices ds num_img_per_class r of
             Inl e \<Rightarrow> Inl e
           | Inr (indices, r1) \<Rightarrow>
               (let ((train_indices, val_indices), r2) = split_indices indices r1
                in case DataLoader_init ds bs train_indices of
                     Inl e \<Rightarrow> Inl e
                   | Inr train_loader \<Rightarrow>
                       (case DataLoader_init ds bs val_indices of
                          Inl e \<Rightarrow> Inl e
                        | Inr val_loader \<Rightarrow> Inr (train_loader, val_loader, r2)))))"

section \<open>The batch provider\<close>

text \<open>
  \<open>len(loader)\<close>, the number of batches of one pass, the last one possibly short.
\<close>

definition loader_len :: "DataLoader \<Rightarrow> nat" where
  "loader_len l = (length (sampler l) + batch_size l - 1) div batch_size l"

text \<open>
  The batch sampler cuts the order of a pass into runs of \<open>batch_size\<close> indices.  A batch
  size of 0 does not occur, the loader's constructor refuses it.
\<close>

function chunks :: "nat \<Rightarrow> 'a list \<Rightarrow> 'a list list" where
  "chunks n xs = (if n = 0 \<or> xs = [] then [] else take n xs # chunks n (drop n xs))"
  by pat_completeness auto
termination
  by (relation "measure (\<lambda>(n, xs). length xs)") auto

text \<open>
  One pass over a loader with a \<open>SubsetRandomSampler\<close>: the indices in the order of a
  fresh random permutation of their positions, cut into batches.
\<close>

definition loader_batches :: "DataLoader \<Rightarrow> rng \<Rightarrow> nat list list \<times> rng" where
  "loader_batches l r =
     (let (perm, r1) = permutation (length (sampler l)) r
      in (chunks (batch_size l) (map (\<lambda>i. sampler l ! i) perm), r1))"

text \<open>Fetching the items of a batch; the first bad index raises.\<close>

fun fetch :: "CustomImageFolder \<Rightarrow> nat list \<Rightarrow> error + (string \<times> nat) list" where
  "fetch ds [] = Inr []"
| "fetch ds (i # rest) =
     (case getitem ds i of
        Inl e \<Rightarrow> Inl e
      | Inr item \<Rightarrow> (case fetch ds rest of Inl e \<Rightarrow> Inl e | Inr items \<Rightarrow> Inr (item # items)))"

section \<open>The learning-rate schedule\<close>

text \<open>
  Of the one-cycle schedule only the step counting matters here: the constructor wants
  positive counts of epochs and of steps per epoch, and a step beyond the total raises.
\<close>

record OneCycleLR =
  total_steps :: nat
  last_epoch :: nat

definition OneCycleLR_init :: "nat \<Rightarrow> nat \<Rightarrow> error + OneCycleLR" where
  "OneCycleLR_init steps_per_epoch epochs =
     (if epochs = 0 then Inl ValueError
      else if steps_per_epoch = 0 then Inl ValueError
      else Inr \<lparr>total_steps = epochs * steps_per_epoch, last_epoch = 0\<rparr>)"

definition scheduler_step :: "OneCycleLR \<Rightarrow> error + OneCycleLR" where
  "scheduler_step s =
     (if last_epoch s + 1 > total_steps s then Inl ValueError
      else Inr (s\<lparr>last_epoch := last_epoch s + 1\<rparr>))"

section \<open>train_model\<close>

text \<open>
  The opaque collaborators.  \<open>train_batch\<close> is the forward pass, the loss, the backward
  pass and the optimizer step on one batch, at the learning rate of the given schedule
  position: it returns the new parameters and optimizer state, \<open>loss.item()\<close> and the
  number of correct predictions.  \<open>eval_batch\<close> is the forward pass and the loss without
  gradients.  \<open>lr_value\<close> is the learning rate the schedule reports at a position.
\<close>

text \<open>
  A Python float: a number, an infinity or NaN.  The numbers are exact rationals
  (rounding and overflow are not modelled); the infinities and NaN behave as in IEEE
  arithmetic.  \<open>below\<close> is the comparison \<open><\<close>, false whenever NaN is involved;
  \<open>float_add\<close> is \<open>+\<close>; \<open>float_times\<close> is the product with a batch size;
  \<open>float_div\<close> is the quotient by a positive length.
\<close>

datatype pyfloat = Finite rat | PosInf | NegInf | NaN

fun below :: "pyfloat \<Rightarrow> pyfloat \<Rightarrow> bool" where
  "below (Finite x) (Finite y) = (x < y)"
| "below (Finite x) PosInf = True"
| "below NegInf (Finite y) = True"
| "below NegInf PosInf = True"
| "below x y = False"

fun float_add :: "pyfloat \<Rightarrow> pyfloat \<Rightarrow> pyfloat" where
  "float_add (Finite x) (Finite y) = Finite (x + y)"
| "float_add NaN y = NaN"
| "float_add x NaN = NaN"
| "float_add PosInf NegInf = NaN"
| "float_add NegInf PosInf = NaN"
| "float_add PosInf y = PosInf"
| "float_add x PosInf = PosInf"
| "float_add NegInf y = NegInf"
| "float_add x NegInf = NegInf"

fun float_times :: "pyfloat \<Rightarrow> nat \<Rightarrow> pyfloat" where
  "float_times (Finite x) n = Finite (x * of_nat n)"
| "float_times NaN n = NaN"
| "float_times PosInf n = (if n = 0 then NaN else PosInf)"
| "float_times NegInf n = (if n = 0 then NaN else NegInf)"

fun float_div :: "pyfloat \<Rightarrow> nat \<Rightarrow> pyfloat" where
  "float_div (Finite x) n = Finite (x / of_nat n)"
| "float_div x n = x"

record ('w, 'o) learner =
  train_batch :: "nat \<Rightarrow> 'w \<Rightarrow> 'o \<Rightarrow> (string \<times> nat) list \<Rightarrow> ('w \<times> 'o) \<times> pyfloat \<times> nat"
  eval_batch :: "'w \<Rightarrow> (string \<times> nat) list \<Rightarrow> pyfloat \<times> nat"
  lr_value :: "nat \<Rightarrow> pyfloat"

text \<open>The files written: a best checkpoint named by epoch and loss, or the final model.\<close>

datatype tag = Best nat pyfloat | Final

text \<open>The calls to the optimizer, the schedule and the validation forward pass, in order.\<close>

datatype call = OptimizerStep | SchedulerStep | EvalForward

record ('w, 'o) train_state =
  weights :: 'w
  opt_state :: 'o
  scheduler :: OneCycleLR
  torch_rng :: rng
  best_model_wts :: 'w
  best_loss :: pyfloat
  writer :: "(string \<times> pyfloat \<times> nat) list"
  checkpoints :: "(tag \<times> 'w) list"
  calls :: "call list"

text \<open>
  The loop over the training batches of one epoch, with the two running sums.
  \<open>n\<close> is \<open>len(train_loader)\<close>.
\<close>

fun train_batches ::
    "('w, 'o) learner \<Rightarrow> CustomImageFolder \<Rightarrow> nat \<Rightarrow> nat \<Rightarrow> nat list list \<Rightarrow> nat
      \<Rightarrow> ('w, 'o) train_state \<times> pyfloat \<times> nat
      \<Rightarrow> error + (('w, 'o) train_state \<times> pyfloat \<times> nat)" where
  "train_batches L ds epoch n [] batch_idx acc = Inr acc"
| "train_batches L ds epoch n (b # bs) batch_idx (st, running_loss, running_corrects) =
     (case fetch ds b of
        Inl e \<Rightarrow> Inl e
      | Inr inputs \<Rightarrow>
          (let ((w, ostate), loss, corrects) =
                 train_batch L (last_epoch (scheduler st)) (weights st) (opt_state st) inputs
           in case scheduler_step (scheduler st) of
                Inl e \<Rightarrow> Inl e
              | Inr sch \<Rightarrow>
                  train_batches L ds epoch n bs (Suc batch_idx)
                    (st\<lparr>weights := w, opt_state := ostate, scheduler := sch,
                        calls := calls st @ [OptimizerStep, SchedulerStep],
                        writer := writer st @
                          [(''Training Loss'', loss, epoch * n + batch_idx),
                           (''Learning Rate'', lr_value L (last_epoch sch), epoch * n + batch_idx)]\<rparr>,
                     float_add running_loss (float_times loss (length inputs)),
                     running_corrects + corrects)))"

text \<open>The loop over the validation batches.\<close>

fun val_batches ::
    "('w, 'o) learner \<Rightarrow> CustomImageFolder \<Rightarrow> nat list list
      \<Rightarrow> ('w, 'o) train_state \<times> pyfloat \<times> nat
      \<Rightarrow> error + (('w, 'o) train_state \<times> pyfloat \<times> nat)" where
  "val_batches L ds [] acc = Inr acc"
| "val_batches L ds (b # bs) (st, val_loss, val_corrects) =
     (case fetch ds b of
        Inl e \<Rightarrow> Inl e
      | Inr inputs \<Rightarrow>
          (let (loss, corrects) = eval_batch L (weights st) inputs
           in val_batches L ds bs
                (st\<lparr>calls := calls st @ [EvalForward]\<rparr>,
                 float_add val_loss (float_times loss (length inputs)),
                 val_corrects + corrects)))"

text \<open>
  The body of the epoch loop, in its three parts.  First the training phase: a pass over
  the training loader, then the epoch metrics.  The division is by
  \<open>len(train_loader.dataset)\<close>, the length of the catalog, and raises when it is 0.
\<close>

definition training_phase ::
    "('w, 'o) learner \<Rightarrow> DataLoader \<Rightarrow> nat \<Rightarrow> ('w, 'o) train_state
      \<Rightarrow> error + ('w, 'o) train_state" where
  "training_phase L train_loader epoch st =
     (let (tb, r1) = loader_batches train_loader (torch_rng st)
      in case train_batches L (dataset train_loader) epoch (loader_len train_loader) tb 0
                (st\<lparr>torch_rng := r1\<rparr>, Finite 0, 0) of
           Inl e \<Rightarrow> Inl e
         | Inr (st1, running_loss, running_corrects) \<Rightarrow>
             if length (samples (dataset train_loader)) = 0 then Inl ZeroDivisionError
             else
               (let epoch_loss = float_div running_loss (length (samples (dataset train_loader)));
                    epoch_acc = Finite (of_nat running_corrects
                                  / of_nat (length (samples (dataset train_loader))))
                in Inr (st1\<lparr>writer := writer st1 @
                          [(''Epoch Training Loss'', epoch_loss, epoch),
                           (''Epoch Training Accuracy'', epoch_acc, epoch)]\<rparr>)))"

text \<open>
  The validation phase: a pass over the validation loader and its metrics, again divided
  by the length of the catalog.  It returns the state and \<open>val_loss\<close>.
\<close>

definition validation_phase ::
    "('w, 'o) learner \<Rightarrow> DataLoader \<Rightarrow> nat \<Rightarrow> ('w, 'o) train_state
      \<Rightarrow> error + (('w, 'o) train_state \<times> pyfloat)" where
  "validation_phase L val_loader epoch st =
     (let (vb, r2) = loader_batches val_loader (torch_rng st)
      in case val_batches L (dataset val_loader) vb (st\<lparr>torch_rng := r2\<rparr>, Finite 0, 0) of
           Inl e \<Rightarrow> Inl e
         | Inr (st3, val_loss_sum, val_corrects) \<Rightarrow>
             if length (samples (dataset val_loader)) = 0 then Inl ZeroDivisionError
             else
               (let val_loss = float_div val_loss_sum (length (samples (dataset val_loader)));
                    val_acc = Finite (of_nat val_corrects
                                / of_nat (length (samples (dataset val_loader))))
                in Inr (st3\<lparr>writer := writer st3 @
                          [(''Validation Loss'', val_loss, epoch),
                           (''Validation Accuracy'', val_acc, epoch)]\<rparr>, val_loss)))"

text \<open>The checkpoint decision: \<open>if val_loss < best_loss\<close>.\<close>

definition checkpoint_step ::
    "nat \<Rightarrow> pyfloat \<Rightarrow> ('w, 'o) train_state \<Rightarrow> ('w, 'o) train_state" where
  "checkpoint_step epoch val_loss st =
     (if below val_loss (best_loss st)
      then st\<lparr>best_loss := val_loss,
              best_model_wts := weights st,
              checkpoints := checkpoints st @ [(Best epoch val_loss, weights st)]\<rparr>
      else st)"

definition train_epoch ::
    "('w, 'o) learner \<Rightarrow> DataLoader \<Rightarrow> DataLoader \<Rightarrow> nat \<Rightarrow> ('w, 'o) train_state
      \<Rightarrow> error + ('w, 'o) train_state" where
  "train_epoch L train_loader val_loader epoch st =
     (case training_phase L train_loader epoch st of
        Inl e \<Rightarrow> Inl e
      | Inr st2 \<Rightarrow>
          (case validation_phase L val_loader epoch st2 of
             Inl e \<Rightarrow> Inl e
           | Inr (st4, val_loss) \<Rightarrow> Inr (checkpoint_step epoch val_loss st4)))"

fun epochs_loop ::
    "('w, 'o) learner \<Rightarrow> DataLoader \<Rightarrow> DataLoader \<Rightarrow> nat list \<Rightarrow> ('w, 'o) train_state
      \<Rightarrow> error + ('w, 'o) train_state" where
  "epochs_loop L train_loader val_loader [] st = Inr st"
| "epochs_loop L train_loader val_loader (epoch # rest) st =
     (case train_epoch L train_loader val_loader epoch st of
        Inl e \<Rightarrow> Inl e
      | Inr st1 \<Rightarrow> epochs_loop L train_loader val_loader rest st1)"

text \<open>
  The state before the first epoch: the best parameters are a copy of the initial ones,
  the best loss is \<open>float('inf')\<close>, nothing is written yet.
\<close>

definition initial_state :: "'w \<Rightarrow> 'o \<Rightarrow> OneCycleLR \<Rightarrow> rng \<Rightarrow> ('w, 'o) train_state" where
  "initial_state model optimizer_state sched r =
     \<lparr>weights = model, opt_state = optimizer_state, scheduler = sched, torch_rng = r,
      best_model_wts = model, best_loss = PosInf, writer = [], checkpoints = [],
      calls = []\<rparr>"

text \<open>
  \<open>train_model\<close>: after the epochs the model is loaded with the best parameters.
  The state returned holds the model, what the run wrote to the metrics writer and to
  the checkpoint directory, and the calls it made.
\<close>

definition train_model ::
    "('w, 'o) learner \<Rightarrow> 'w \<Rightarrow> 'o \<Rightarrow> OneCycleLR \<Rightarrow> DataLoader \<Rightarrow> DataLoader \<Rightarrow> nat \<Rightarrow> rng
      \<Rightarrow> error + ('w, 'o) train_state" where
  "train_model L model optimizer_state sched train_loader val_loader num_epochs r =
     (case epochs_loop L train_loader val_loader [0..<num_epochs]
             (initial_state model optimizer_state sched r) of
        Inl e \<Rightarrow> Inl e
      | Inr st \<Rightarrow> Inr (st\<lparr>weights := best_model_wts st\<rparr>))"

section \<open>main\<close>

text \<open>
  The constants of the script (data path, batch size, images per class, number of
  epochs) are arguments here, as are the directory tree, the freshly initialised model and
  optimizer, and the two random sources (NumPy's for the sampling, the loaders' own).
  After training, the model's parameters are saved as the final model.
\<close>

definition main ::
    "string \<Rightarrow> node \<Rightarrow> nat \<Rightarrow> nat \<Rightarrow> nat \<Rightarrow> ('w, 'o) learner \<Rightarrow> 'w \<Rightarrow> 'o \<Rightarrow> rng \<Rightarrow> rng
      \<Rightarrow> error + ('w, 'o) train_state" where
  "main data_path root_node bs num_img_per_class num_epochs L model optimizer_state np_rng t_rng =
     (case get_data_loaders data_path root_node bs num_img_per_class np_rng of
        Inl e \<Rightarrow> Inl e
      | Inr (train_loader, val_loader, r) \<Rightarrow>
          (case OneCycleLR_init (loader_len train_loader) num_epochs of
             Inl e \<Rightarrow> Inl e
           | Inr sched \<Rightarrow>
               (case train_model L model optimizer_state sched train_loader val_loader
                       num_epochs t_rng of
                  Inl e \<Rightarrow> Inl e
                | Inr st \<Rightarrow>
                    Inr (st\<lparr>checkpoints := checkpoints st @ [(Final, weights st)]\<rparr>))))"

section \<open>Notions used to state the properties\<close>

text \<open>The raw count of a class, as \<open>np.bincount\<close> of the labels reports it.\<close>

definition class_count :: "(string \<times> nat) list \<Rightarrow> nat \<Rightarrow> nat" where
  "class_count smp class_idx = length (filter (\<lambda>s. snd s = class_idx) smp)"

text \<open>
  What one class contributes to the pool: \<open>k\<close> positions of that class, without repeats
  when the class has at least \<open>k\<close> entries.
\<close>

definition block_ok :: "(string \<times> nat) list \<Rightarrow> nat \<Rightarrow> nat \<Rightarrow> nat list \<Rightarrow> bool" where
  "block_ok smp k c b =
     (length b = k \<and> set b \<subseteq> set (class_positions smp c)
      \<and> (k \<le> length (class_positions smp c) \<longrightarrow> distinct b))"

text \<open>The index lists of the two loaders of a run, the generator left out.\<close>

definition split_of :: "error + (DataLoader \<times> DataLoader \<times> rng) \<Rightarrow> error + (nat list \<times> nat list)" where
  "split_of res = map_sum id (\<lambda>(t, v, r). (sampler t, sampler v)) res"

text \<open>The validation losses a run reported to the metrics writer, in order.\<close>

definition val_losses :: "(string \<times> pyfloat \<times> nat) list \<Rightarrow> pyfloat list" where
  "val_losses w = map (\<lambda>x. fst (snd x)) (filter (\<lambda>x. fst x = ''Validation Loss'') w)"

text \<open>
  What the checkpoint rule asks for, on a list of epochs with their validation losses
  and a best loss to start from: the epochs that improve on everything before them, and
  the best loss after all of them.
\<close>

fun improvements :: "pyfloat \<Rightarrow> (nat \<times> pyfloat) list \<Rightarrow> (nat \<times> pyfloat) list" where
  "improvements b [] = []"
| "improvements b ((e, v) # rest) =
     (if below v b then (e, v) # improvements v rest else improvements b rest)"

fun best_after :: "pyfloat \<Rightarrow> pyfloat list \<Rightarrow> pyfloat" where
  "best_after b [] = b"
| "best_after b (v # vs) = best_after (if below v b then v else b) vs"


text \<open>The file name of a best checkpoint, from its epoch and loss.\<close>

definition best_tag :: "nat \<times> pyfloat \<Rightarrow> tag" where
  "best_tag ev = Best (fst ev) (snd ev)"

text \<open>The calls of one epoch with \<open>n\<close> training and \<open>m\<close> validation batches.\<close>

definition epoch_calls :: "nat \<Rightarrow> nat \<Rightarrow> call list" where
  "epoch_calls n m = concat (replicate n [OptimizerStep, SchedulerStep]) @ replicate m EvalForward"

text \<open>A family of concrete random sources for examples: the draws \<open>a * i + b\<close>.\<close>

definition affine_rng :: "nat \<Rightarrow> nat \<Rightarrow> rng" where
  "affine_rng a b i = a * i + b"

text \<open>
  Notions for the catalog.  A file system keeps the names in a directory distinct,
  nonempty and free of the separator.
\<close>

definition valid_name :: "string \<Rightarrow> bool" where
  "valid_name n = (n \<noteq> [] \<and> CHR ''/'' \<notin> set n)"

fun wf_node :: "node \<Rightarrow> bool" where
  "wf_node File = True"
| "wf_node (Dir es) =
     (distinct (map fst es) \<and> (\<forall>e\<in>set es. valid_name (fst e) \<and> wf_node (snd e)))"

text \<open>
  The (directory, file name) pairs in the order in which \<open>_make_dataset\<close> visits them
  in one class directory, before the image filter.
\<close>

definition walk_files :: "string \<Rightarrow> node \<Rightarrow> (string \<times> string) list" where
  "walk_files top_dir d =
     concat (map (\<lambda>w. map (\<lambda>fname. (fst w, fname)) (sort (snd (snd w)))) (sort (walk top_dir d)))"

text \<open>
  Every file below a directory with the path of the directory that holds it, and the
  number of files below a directory whose name passes the image filter.
\<close>

fun tree_files :: "string \<Rightarrow> node \<Rightarrow> (string \<times> string) list" where
  "tree_files top_dir File = []"
| "tree_files top_dir (Dir es) =
     concat (map (\<lambda>e. case snd e of
                        File \<Rightarrow> [(top_dir, fst e)]
                      | Dir sub \<Rightarrow> tree_files (join top_dir (fst e)) (snd e)) es)"

fun count_images :: "node \<Rightarrow> nat" where
  "count_images File = 0"
| "count_images (Dir es) =
     sum_list (map (\<lambda>e. case snd e of
                          File \<Rightarrow> (if is_image_file (fst e) then 1 else 0)
                        | Dir sub \<Rightarrow> count_images (snd e)) es)"

text \<open>
  A concrete learner for examples: its parameters count the optimizer steps taken, every
  training batch has loss 1, the validation loss of a batch is the step count, and every
  prediction is correct.
\<close>

definition counting_learner :: "(nat, unit) learner" where
  "counting_learner =
     \<lparr>train_batch = (\<lambda>lr w ostate items. ((Suc w, ostate), Finite 1, length items)),
      eval_batch = (\<lambda>w items. (Finite (of_nat w), length items)),
      lr_value = (\<lambda>i. Finite 0)\<rparr>"





text \<open>The epoch-level scalars a run reported, the per-batch ones left out.\<close>

definition epoch_scalars ::
    "error + ('w, 'o) train_state \<Rightarrow> error + (string \<times> pyfloat \<times> nat) list" where
  "epoch_scalars res =
     map_sum id
       (\<lambda>st. filter (\<lambda>x. fst x \<noteq> ''Training Loss'' \<and> fst x \<noteq> ''Learning Rate'') (writer st))
       res"

section \<open>Properties of the random source and of the sampler\<close>

lemma split_point_div: "split_point n = (4 * n) div 5"
proof -
  have "(8 / 10 :: rat) * of_nat n = of_nat (4 * n) / of_nat 5" by simp
  then have "\<lfloor>(8 / 10 :: rat) * of_nat n\<rfloor> = int ((4 * n) div 5)"
    by (simp only: floor_divide_of_nat_eq)
  then show ?thesis by (simp add: split_point_def)
qed

lemma randbelow_less: "0 < b \<Longrightarrow> fst (randbelow b r) < b"
  by (simp add: randbelow_def)

lemma randint_list_length: "length (fst (randint_list b n r)) = n"
  by (induction n arbitrary: r) (auto simp: split_def Let_def)

lemma randint_list_less: "0 < b \<Longrightarrow> j \<in> set (fst (randint_list b n r)) \<Longrightarrow> j < b"
  by (induction n arbitrary: r) (auto simp: split_def Let_def randbelow_def)

lemma shuffle_from_mset: "i < length xs \<Longrightarrow> mset (fst (shuffle_from i xs r)) = mset xs"
proof (induction i arbitrary: xs r)
  case 0 then show ?case by simp
next
  case (Suc i)
  have j: "fst (randbelow (Suc (Suc i)) r) < length xs"
    using randbelow_less[of "Suc (Suc i)" r] Suc.prems by simp
  show ?case using Suc.prems j
    by (simp add: split_def Let_def Suc.IH mset_swap)
qed

lemma shuffle_mset: "mset (fst (shuffle xs r)) = mset xs"
  by (cases xs) (simp_all add: shuffle_def shuffle_from_mset)


lemma shuffle_from_length: "length (fst (shuffle_from i xs r)) = length xs"
  by (induction i arbitrary: xs r) (simp_all add: split_def Let_def)

lemma shuffle_length: "length (fst (shuffle xs r)) = length xs"
  by (simp add: shuffle_def shuffle_from_length)

lemma shuffle_set: "set (fst (shuffle xs r)) = set xs"
  using shuffle_mset[of xs r] by (rule mset_eq_setD)

lemma shuffle_distinct: "distinct (fst (shuffle xs r)) = distinct xs"
  using shuffle_mset[of xs r] by (rule mset_eq_imp_distinct_iff)

lemma permutation_set: "set (fst (permutation n r)) = {0..<n}"
  by (simp add: permutation_def shuffle_set)

lemma permutation_distinct: "distinct (fst (permutation n r))"
  by (simp add: permutation_def shuffle_distinct)

lemma choice_succeeds:
  "a \<noteq> [] \<or> k = 0 \<Longrightarrow> rep \<or> k \<le> length a \<Longrightarrow> \<exists>ys r'. choice a k rep r = Inr (ys, r')"
  by (auto simp: choice_def split_def Let_def)

lemma choice_empty_fails: "k \<noteq> 0 \<Longrightarrow> choice [] k rep r = Inl ValueError"
  by (simp add: choice_def)

lemma choice_length: "choice a k rep r = Inr (ys, r') \<Longrightarrow> length ys = k"
  by (auto simp: choice_def split_def Let_def randint_list_length permutation_def shuffle_length
      split: if_splits)

lemma choice_subset: 
  assumes "choice a k rep r = Inr (ys, r')" shows "set ys \<subseteq> set a"
proof (cases rep)
  case True
  show ?thesis
  proof (cases "a = []")
    case True
    with assms have "k = 0" by (auto simp: choice_def split: if_splits)
    with assms have "ys = []" using choice_length by fastforce
    then show ?thesis by simp
  next
    case False
    then have pos: "0 < length a" by simp
    from assms True False have "ys = map (\<lambda>i. a ! i) (fst (randint_list (length a) k r))"
      by (auto simp: choice_def split_def Let_def split: if_splits)
    then show ?thesis using randint_list_less[OF pos] by auto
  qed
next
  case False
  with assms have ys: "ys = map (\<lambda>i. a ! i) (take k (fst (permutation (length a) r)))"
    by (auto simp: choice_def split_def Let_def split: if_splits)
  have "set (take k (fst (permutation (length a) r))) \<subseteq> {0..<length a}"
    using set_take_subset[of k "fst (permutation (length a) r)"] permutation_set by blast
  then show ?thesis unfolding ys by auto
qed

lemma choice_distinct:
  assumes "distinct a" "choice a k False r = Inr (ys, r')" shows "distinct ys"
proof -
  let ?p = "take k (fst (permutation (length a) r))"
  from assms(2) have ys: "ys = map (\<lambda>i. a ! i) ?p"
    by (auto simp: choice_def split_def Let_def split: if_splits)
  have sub: "set ?p \<subseteq> {0..<length a}"
    using set_take_subset[of k "fst (permutation (length a) r)"] permutation_set by blast
  have d: "distinct ?p" by (simp add: permutation_distinct)
  have "inj_on (\<lambda>i. a ! i) (set ?p)"
  proof (rule inj_onI)
    fix x y assume "x \<in> set ?p" "y \<in> set ?p" "a ! x = a ! y"
    moreover from this sub have "x < length a" "y < length a" by auto
    ultimately show "x = y" using assms(1) by (simp add: nth_eq_iff_index_eq)
  qed
  then show ?thesis unfolding ys using d by (simp add: distinct_map)
qed

lemma class_positions_set:
  "set (class_positions smp c) = {i. i < length smp \<and> snd (smp ! i) = c}"
  by (auto simp: class_positions_def)

lemma class_positions_distinct: "distinct (class_positions smp c)"
  by (simp add: class_positions_def)

lemma class_positions_length:
  "length (class_positions smp c) = length (filter (\<lambda>s. snd s = c) smp)"
proof -
  have "filter (\<lambda>s. snd s = c) (map (\<lambda>i. smp ! i) [0..<length smp])
        = map (\<lambda>i. smp ! i) (class_positions smp c)"
    by (simp add: class_positions_def filter_map o_def)
  then show ?thesis by (metis length_map map_nth)
qed

lemma sample_class_succeeds:
  "class_positions smp c \<noteq> [] \<or> k = 0 \<Longrightarrow> \<exists>ys r'. sample_class smp k c r = Inr (ys, r')"
  by (auto simp: sample_class_def Let_def intro!: choice_succeeds)

lemma sample_class_fails:
  "class_positions smp c = [] \<Longrightarrow> k \<noteq> 0 \<Longrightarrow> sample_class smp k c r = Inl ValueError"
  by (simp add: sample_class_def choice_empty_fails)

lemma sample_class_length: "sample_class smp k c r = Inr (ys, r') \<Longrightarrow> length ys = k"
  by (auto simp: sample_class_def Let_def split: if_splits dest: choice_length)

lemma sample_class_subset:
  "sample_class smp k c r = Inr (ys, r') \<Longrightarrow> set ys \<subseteq> set (class_positions smp c)"
  by (auto simp: sample_class_def Let_def split: if_splits dest: choice_subset)

lemma sample_class_distinct:
  "sample_class smp k c r = Inr (ys, r') \<Longrightarrow> k \<le> length (class_positions smp c) \<Longrightarrow> distinct ys"
  by (auto simp: sample_class_def Let_def split: if_splits
      dest: choice_distinct[OF class_positions_distinct])

lemma sample_classes_blocks:
  "sample_classes smp k cs acc r = Inr (pool, r') \<Longrightarrow>
     \<exists>blocks. pool = acc @ concat blocks \<and> list_all2 (block_ok smp k) cs blocks"
proof (induction cs arbitrary: acc r)
  case Nil
  then show ?case by simp
next
  case (Cons c cs)
  from Cons.prems obtain ys r1 where
    s: "sample_class smp k c r = Inr (ys, r1)" and
    rest: "sample_classes smp k cs (acc @ ys) r1 = Inr (pool, r')"
    by (auto split: sum.splits)
  from Cons.IH[OF rest] obtain blocks where
    b: "pool = (acc @ ys) @ concat blocks" "list_all2 (block_ok smp k) cs blocks" by blast
  have "block_ok smp k c ys"
    using sample_class_length[OF s] sample_class_subset[OF s] sample_class_distinct[OF s]
    by (simp add: block_ok_def)
  with b have "pool = acc @ concat (ys # blocks) \<and> list_all2 (block_ok smp k) (c # cs) (ys # blocks)"
    by simp
  then show ?case by blast
qed

lemma sample_classes_succeeds:
  "\<forall>c\<in>set cs. class_positions smp c \<noteq> [] \<or> k = 0 \<Longrightarrow>
     \<exists>pool r'. sample_classes smp k cs acc r = Inr (pool, r')"
proof (induction cs arbitrary: acc r)
  case Nil
  then show ?case by simp
next
  case (Cons c cs)
  from Cons.prems obtain ys r1 where s: "sample_class smp k c r = Inr (ys, r1)"
    using sample_class_succeeds[of smp c k r] by auto
  from Cons.prems Cons.IH[of "acc @ ys" r1] show ?case by (simp add: s)
qed

lemma sample_classes_fails:
  "c \<in> set cs \<Longrightarrow> class_positions smp c = [] \<Longrightarrow> k \<noteq> 0 \<Longrightarrow>
     sample_classes smp k cs acc r = Inl ValueError"
proof (induction cs arbitrary: acc r)
  case Nil
  then show ?case by simp
next
  case (Cons d cs)
  show ?case
  proof (cases "class_positions smp d = []")
    case True
    then show ?thesis using Cons.prems by (simp add: sample_class_fails)
  next
    case False
    with Cons.prems have "c \<in> set cs" by auto
    from Cons.IH[OF this Cons.prems(2,3)] show ?thesis
      by (auto split: sum.splits simp: sample_class_def choice_def Let_def split_def)
  qed
qed

lemma blocks_length:
  "list_all2 (block_ok smp k) cs blocks \<Longrightarrow> length (concat blocks) = length cs * k"
  by (induction rule: list_all2_induct) (simp_all add: block_ok_def)

lemma blocks_nth:
  "list_all2 (block_ok smp k) cs blocks \<Longrightarrow> j < length (concat blocks) \<Longrightarrow>
     concat blocks ! j \<in> set (class_positions smp (cs ! (j div k)))"
proof (induction arbitrary: j rule: list_all2_induct)
  case Nil
  then show ?case by simp
next
  case (Cons c cs b bs)
  then have lb: "length b = k" and sb: "set b \<subseteq> set (class_positions smp c)"
    by (simp_all add: block_ok_def)
  show ?case
  proof (cases "j < k")
    case True
    then show ?thesis using lb sb by (auto simp: nth_append)
  next
    case False
    then have kpos: "k \<le> j" by simp
    have len: "length (concat bs) = length cs * k" using Cons.hyps blocks_length by blast
    have "0 < k"
    proof (rule ccontr)
      assume "\<not> 0 < k"
      then have "length (concat bs) = 0" "length b = 0" using len lb by simp_all
      then have "length (concat (b # bs)) = 0" by simp
      with Cons.prems show False by (simp only: not_less_zero)
    qed
    have m: "j div k = Suc ((j - k) div k)" using \<open>0 < k\<close> kpos by (simp add: le_div_geq)
    from Cons.prems lb False have "j - k < length (concat bs)" by auto
    from Cons.IH[OF this] show ?thesis using False lb m by (simp add: nth_append)
  qed
qed

lemma blocks_distinct:
  assumes "list_all2 (block_ok smp k) cs blocks" "distinct cs"
    "\<forall>c\<in>set cs. k \<le> length (class_positions smp c)"
  shows "distinct (concat blocks) \<and> (\<forall>i\<in>set (concat blocks). snd (smp ! i) \<in> set cs)"
  using assms
proof (induction rule: list_all2_induct)
  case Nil
  then show ?case by simp
next
  case (Cons c cs b bs)
  then have sb: "set b \<subseteq> set (class_positions smp c)" and db: "distinct b"
    by (simp_all add: block_ok_def)
  from Cons have IH: "distinct (concat bs)" "\<forall>i\<in>set (concat bs). snd (smp ! i) \<in> set cs"
    by simp_all
  have lab: "\<forall>i\<in>set b. snd (smp ! i) = c" using sb by (auto simp: class_positions_set)
  have "set b \<inter> set (concat bs) = {}"
  proof (rule ccontr)
    assume "set b \<inter> set (concat bs) \<noteq> {}"
    then obtain i where "i \<in> set b" "i \<in> set (concat bs)" by auto
    with lab IH(2) have "c \<in> set cs" by auto
    with Cons.prems show False by simp
  qed
  with db IH lab show ?case by auto
qed

lemma class_count_positions: "class_count smp c = length (class_positions smp c)"
  by (simp add: class_count_def class_positions_length)

lemma split_indices_eq:
  "split_indices indices r =
     ((take (split_point (length indices)) (fst (shuffle indices r)),
       drop (split_point (length indices)) (fst (shuffle indices r))), snd (shuffle indices r))"
  by (simp add: split_indices_def split_def Let_def shuffle_length)

lemma get_data_loaders_Inr:
  assumes "get_data_loaders d root_node bs k r = Inr (train_loader, val_loader, r2)"
  shows "\<exists>ds pool r1. CustomImageFolder_init d root_node = Inr ds
           \<and> balanced_indices ds k r = Inr (pool, r1) \<and> 0 < bs
           \<and> train_loader = \<lparr>dataset = ds, batch_size = bs,
                    sampler = take (split_point (length pool)) (fst (shuffle pool r1))\<rparr>
           \<and> val_loader = \<lparr>dataset = ds, batch_size = bs,
                    sampler = drop (split_point (length pool)) (fst (shuffle pool r1))\<rparr>"
  using assms
  by (auto simp: get_data_loaders_def split_indices_eq DataLoader_init_def
      split: sum.splits if_splits)

lemma get_data_loaders_succeeds:
  assumes "CustomImageFolder_init d root_node = Inr ds"
    "balanced_indices ds k r = Inr (pool, r1)" "0 < bs"
  shows "\<exists>train_loader val_loader r2. get_data_loaders d root_node bs k r = Inr (train_loader, val_loader, r2)"
  using assms
  by (simp add: get_data_loaders_def split_indices_eq DataLoader_init_def)

lemma balanced_indices_blocks:
  "balanced_indices ds k r = Inr (pool, r1) \<Longrightarrow>
     \<exists>blocks. pool = concat blocks
        \<and> list_all2 (block_ok (samples ds) k) [0..<length (classes ds)] blocks"
  unfolding balanced_indices_def using sample_classes_blocks[of "samples ds" k _ "[]" r pool r1]
  by simp

lemma balanced_indices_length:
  "balanced_indices ds k r = Inr (pool, r1) \<Longrightarrow> length pool = length (classes ds) * k"
  using balanced_indices_blocks[of ds k r pool r1] blocks_length by fastforce

lemma balanced_indices_nth:
  assumes "balanced_indices ds k r = Inr (pool, r1)" "j < length pool"
  shows "pool ! j < length (samples ds) \<and> snd (samples ds ! (pool ! j)) = j div k"
proof -
  from balanced_indices_blocks[OF assms(1)] obtain blocks where
    b: "pool = concat blocks" "list_all2 (block_ok (samples ds) k) [0..<length (classes ds)] blocks"
    by blast
  have len: "length pool = length (classes ds) * k" using balanced_indices_length[OF assms(1)] .
  have "0 < k" using assms(2) len by (cases k) auto
  then have "j div k < length (classes ds)" using assms(2) len
    by (simp add: less_mult_imp_div_less)
  then have "[0..<length (classes ds)] ! (j div k) = j div k" by simp
  with blocks_nth[OF b(2), of j] assms(2) b(1)
  have "pool ! j \<in> set (class_positions (samples ds) (j div k))" by simp
  then show ?thesis by (simp add: class_positions_set)
qed

lemma balanced_indices_distinct:
  assumes "balanced_indices ds k r = Inr (pool, r1)"
    "\<forall>c<length (classes ds). k \<le> class_count (samples ds) c"
  shows "distinct pool"
proof -
  from balanced_indices_blocks[OF assms(1)] obtain blocks where
    b: "pool = concat blocks" "list_all2 (block_ok (samples ds) k) [0..<length (classes ds)] blocks"
    by blast
  have "\<forall>c\<in>set [0..<length (classes ds)]. k \<le> length (class_positions (samples ds) c)"
    using assms(2) by (simp add: class_count_positions)
  from blocks_distinct[OF b(2) _ this] b(1) show ?thesis by simp
qed

lemma balanced_indices_succeeds:
  assumes "\<forall>c<length (classes ds). 1 \<le> class_count (samples ds) c \<or> k = 0"
  shows "\<exists>pool r1. balanced_indices ds k r = Inr (pool, r1)"
proof -
  have "\<forall>c\<in>set [0..<length (classes ds)]. class_positions (samples ds) c \<noteq> [] \<or> k = 0"
    using assms by (auto simp: class_count_positions)
  from sample_classes_succeeds[OF this] show ?thesis by (simp add: balanced_indices_def)
qed

lemma balanced_indices_fails:
  assumes "c < length (classes ds)" "class_count (samples ds) c = 0" "0 < k"
  shows "balanced_indices ds k r = Inl ValueError"
  unfolding balanced_indices_def
  using assms sample_classes_fails[of c "[0..<length (classes ds)]" "samples ds" k "[]" r]
  by (simp add: class_count_positions)

lemma get_data_loaders_valid:
  assumes "get_data_loaders d root_node bs k r = Inr (train_loader, val_loader, r2)"
  shows "\<exists>ds pool r1. CustomImageFolder_init d root_node = Inr ds
           \<and> balanced_indices ds k r = Inr (pool, r1)
           \<and> dataset train_loader = ds \<and> dataset val_loader = ds
           \<and> (\<forall>j<length pool. pool ! j < length (samples ds)
                  \<and> snd (samples ds ! (pool ! j)) = j div k)
           \<and> (\<forall>i\<in>set (sampler train_loader) \<union> set (sampler val_loader).
                  i \<in> set pool \<and> i < length (samples ds)
                  \<and> getitem ds i = Inr (samples ds ! i))"
proof -
  from get_data_loaders_Inr[OF assms] obtain ds pool r1 where
    i: "CustomImageFolder_init d root_node = Inr ds" and
    b: "balanced_indices ds k r = Inr (pool, r1)" and
    t: "train_loader = \<lparr>dataset = ds, batch_size = bs,
          sampler = take (split_point (length pool)) (fst (shuffle pool r1))\<rparr>" and
    v: "val_loader = \<lparr>dataset = ds, batch_size = bs,
          sampler = drop (split_point (length pool)) (fst (shuffle pool r1))\<rparr>"
    by blast
  have nth: "\<forall>j<length pool. pool ! j < length (samples ds)
                  \<and> snd (samples ds ! (pool ! j)) = j div k"
    using balanced_indices_nth[OF b] by blast
  have valid: "i < length (samples ds)" if "i \<in> set pool" for i
    using that nth by (auto simp: in_set_conv_nth)
  have sub: "set (sampler train_loader) \<union> set (sampler val_loader) \<subseteq> set pool"
    using set_take_subset[of _ "fst (shuffle pool r1)"] set_drop_subset[of _ "fst (shuffle pool r1)"]
    by (auto simp: t v shuffle_set)
  have "\<forall>i\<in>set (sampler train_loader) \<union> set (sampler val_loader).
          i \<in> set pool \<and> i < length (samples ds) \<and> getitem ds i = Inr (samples ds ! i)"
    using sub valid by (auto simp: getitem_def)
  with i b nth show ?thesis by (auto simp: t v)
qed

section \<open>The claims about the sampler\<close>

text \<open>
  Claim C6.  For every pool, the split is at position \<open>floor(0.8 * len(pool))\<close> of the
  shuffled pool, the prefix being the training indices and the suffix the validation
  indices; the shuffled pool is a rearrangement of the pool; a pool of 10 gives exactly
  8 training and 2 validation indices.
\<close>

theorem split_prefix_suffix:
  "(let shuffled = fst (shuffle indices r);
        split = nat \<lfloor>(8 / 10 :: rat) * of_nat (length shuffled)\<rfloor>
    in fst (split_indices indices r) = (take split shuffled, drop split shuffled)
       \<and> mset shuffled = mset indices
       \<and> length (fst (fst (split_indices indices r))) = 4 * length indices div 5
       \<and> (length indices = 10 \<longrightarrow>
            length (fst (fst (split_indices indices r))) = 8
            \<and> length (snd (fst (split_indices indices r))) = 2))"
proof -
  have sp: "nat \<lfloor>(8 / 10 :: rat) * of_nat (length (fst (shuffle indices r)))\<rfloor>
              = split_point (length indices)"
    by (simp add: split_point_def shuffle_length)
  have le: "4 * length indices div 5 \<le> length indices" by simp
  show ?thesis
    unfolding Let_def sp
    by (simp add: split_indices_eq shuffle_mset shuffle_length split_point_div le min_absorb2)
qed

theorem split_prefix_suffix_witness:
  "length [3, 1, 4, 1, 5, 9, 2, 6, 5, 3 :: nat] = 10
   \<and> length (fst (fst (split_indices [3, 1, 4, 1, 5, 9, 2, 6, 5, 3] (affine_rng 7 3)))) = 8
   \<and> length (snd (fst (split_indices [3, 1, 4, 1, 5, 9, 2, 6, 5, 3] (affine_rng 7 3)))) = 2"
proof -
  have h: "length [3, 1, 4, 1, 5, 9, 2, 6, 5, 3 :: nat] = 10" by simp
  have "length [3, 1, 4, 1, 5, 9, 2, 6, 5, 3 :: nat] = 10 \<longrightarrow>
      length (fst (fst (split_indices [3, 1, 4, 1, 5, 9, 2, 6, 5, 3] (affine_rng 7 3)))) = 8
      \<and> length (snd (fst (split_indices [3, 1, 4, 1, 5, 9, 2, 6, 5, 3] (affine_rng 7 3)))) = 2"
    using split_prefix_suffix [of "[3, 1, 4, 1, 5, 9, 2, 6, 5, 3]" "affine_rng 7 3"]
    unfolding Let_def by (elim conjE)
  with h show ?thesis by blast
qed

text \<open>
  Claim C2, as stated, fails on a class without entries: the catalog of a root whose only
  class directory is empty is built without error, the class has raw count 0, below the
  target 1, and sampling it raises instead of producing one entry.
\<close>

theorem balanced_sample_empty_class_counterexample:
  "CustomImageFolder_init ''data'' (Dir [(''a'', Dir [])])
     = Inr \<lparr>classes = [''a''], class_to_idx = [(''a'', 0)], samples = []\<rparr>
   \<and> class_count [] 0 < 1
   \<and> sample_class [] 1 0 (affine_rng 0 0) = Inl ValueError
   \<and> balanced_indices \<lparr>classes = [''a''], class_to_idx = [(''a'', 0)], samples = []\<rparr> 1
        (affine_rng 0 0) = Inl ValueError"
proof (intro conjI)
  show "CustomImageFolder_init ''data'' (Dir [(''a'', Dir [])])
     = Inr \<lparr>classes = [''a''], class_to_idx = [(''a'', 0)], samples = []\<rparr>"
    by code_simp
  show "class_count [] 0 < 1" by (simp add: class_count_def)
  show "sample_class [] 1 0 (affine_rng 0 0) = Inl ValueError"
    by (simp add: sample_class_def class_positions_def choice_def)
  show "balanced_indices \<lparr>classes = [''a''], class_to_idx = [(''a'', 0)], samples = []\<rparr> 1
        (affine_rng 0 0) = Inl ValueError"
    by (simp add: balanced_indices_def sample_class_def class_positions_def choice_def)
qed

text \<open>
  Claim C2, amended.  For a class with raw count \<open>c \<ge> 1\<close> and target \<open>k\<close> the sample
  exists and has exactly \<open>k\<close> entries, all of that class; if \<open>c < k\<close> it has repeats, if
  \<open>c \<ge> k\<close> it has none.  A class with \<open>c = 0\<close> and \<open>k > 0\<close> makes the sampler raise.
  Whenever the sampler returns, the pool has length \<open>num_classes * k\<close>, and it returns when
  every class has at least one entry.
\<close>

theorem balanced_sample_per_class:
  "(1 \<le> class_count smp cls \<or> k = 0 \<longrightarrow>
      (\<exists>ys r'. sample_class smp k cls r = Inr (ys, r') \<and> length ys = k
         \<and> (\<forall>i\<in>set ys. i < length smp \<and> snd (smp ! i) = cls)
         \<and> (class_count smp cls < k \<longrightarrow> \<not> distinct ys)
         \<and> (k \<le> class_count smp cls \<longrightarrow> distinct ys)))
   \<and> (class_count smp cls = 0 \<and> 0 < k \<longrightarrow> sample_class smp k cls r = Inl ValueError)
   \<and> (\<forall>pool r1. balanced_indices ds k r = Inr (pool, r1) \<longrightarrow>
         length pool = length (classes ds) * k)
   \<and> ((\<forall>c<length (classes ds). 1 \<le> class_count (samples ds) c) \<longrightarrow>
         (\<exists>pool r1. balanced_indices ds k r = Inr (pool, r1)))"
proof (intro conjI impI allI)
  assume a: "1 \<le> class_count smp cls \<or> k = 0"
  then have "class_positions smp cls \<noteq> [] \<or> k = 0" by (auto simp: class_count_positions)
  from sample_class_succeeds[OF this] obtain ys r' where
    s: "sample_class smp k cls r = Inr (ys, r')" by blast
  have sub: "set ys \<subseteq> set (class_positions smp cls)" using sample_class_subset[OF s] .
  have l: "length ys = k" using sample_class_length[OF s] .
  have rep: "\<not> distinct ys" if lt: "class_count smp cls < k"
  proof
    assume "distinct ys"
    then have "card (set ys) = k" using l distinct_card by fastforce
    moreover have "card (set ys) \<le> card (set (class_positions smp cls))"
      using sub by (simp add: card_mono)
    moreover have "card (set (class_positions smp cls)) \<le> class_count smp cls"
      by (simp add: class_count_positions card_length)
    ultimately show False using lt by simp
  qed
  have "\<forall>i\<in>set ys. i < length smp \<and> snd (smp ! i) = cls"
    using sub by (auto simp: class_positions_set)
  with s l rep sample_class_distinct[OF s]
  show "\<exists>ys r'. sample_class smp k cls r = Inr (ys, r') \<and> length ys = k
         \<and> (\<forall>i\<in>set ys. i < length smp \<and> snd (smp ! i) = cls)
         \<and> (class_count smp cls < k \<longrightarrow> \<not> distinct ys)
         \<and> (k \<le> class_count smp cls \<longrightarrow> distinct ys)"
    by (auto simp: class_count_positions)
next
  assume "class_count smp cls = 0 \<and> 0 < k"
  then show "sample_class smp k cls r = Inl ValueError"
    by (simp add: class_count_positions sample_class_fails)
next
  fix pool r1 assume "balanced_indices ds k r = Inr (pool, r1)"
  then show "length pool = length (classes ds) * k" by (rule balanced_indices_length)
next
  assume "\<forall>c<length (classes ds). 1 \<le> class_count (samples ds) c"
  then show "\<exists>pool r1. balanced_indices ds k r = Inr (pool, r1)"
    using balanced_indices_succeeds[of ds k r] by blast
qed


theorem balanced_sample_per_class_witness:
  "(\<exists>ys r'. sample_class [(''data/a/x.jpg'', 0), (''data/b/y.jpg'', 1), (''data/b/z.png'', 1)] 2 0
               (affine_rng 7 3) = Inr (ys, r') \<and> length ys = 2 \<and> \<not> distinct ys)
   \<and> (\<exists>ys r'. sample_class [(''data/a/x.jpg'', 0), (''data/b/y.jpg'', 1), (''data/b/z.png'', 1)] 2 1
               (affine_rng 7 3) = Inr (ys, r') \<and> length ys = 2 \<and> distinct ys)
   \<and> sample_class [(''data/a/x.jpg'', 0), (''data/b/y.jpg'', 1), (''data/b/z.png'', 1)] 2 2
               (affine_rng 7 3) = Inl ValueError
   \<and> (\<exists>pool r1. balanced_indices
          \<lparr>classes = [''a'', ''b''], class_to_idx = [(''a'', 0), (''b'', 1)],
           samples = [(''data/a/x.jpg'', 0), (''data/b/y.jpg'', 1), (''data/b/z.png'', 1)]\<rparr>
          2 (affine_rng 7 3) = Inr (pool, r1) \<and> length pool = 4)"
proof -
  let ?smp = "[(''data/a/x.jpg'', 0::nat), (''data/b/y.jpg'', 1), (''data/b/z.png'', 1)]"
  let ?ds = "\<lparr>classes = [''a'', ''b''], class_to_idx = [(''a'', 0), (''b'', 1)], samples = ?smp\<rparr>"
  have c0: "class_count ?smp 0 = 1" and c1: "class_count ?smp 1 = 2"
    and c2: "class_count ?smp 2 = 0"
    by (simp_all add: class_count_def)
  have all: "\<forall>c<length (classes ?ds). 1 \<le> class_count (samples ?ds) c"
    using c0 c1 by (auto simp: less_Suc_eq numeral_2_eq_2)
  have len: "length (classes ?ds) * 2 = 4" by simp
  note t0 = balanced_sample_per_class [of ?smp 0 2 "affine_rng 7 3" ?ds]
  note t1 = balanced_sample_per_class [of ?smp 1 2 "affine_rng 7 3" ?ds]
  note t2 = balanced_sample_per_class [of ?smp 2 2 "affine_rng 7 3" ?ds]
  have A: "\<exists>ys r'. sample_class ?smp 2 0 (affine_rng 7 3) = Inr (ys, r') \<and> length ys = 2
             \<and> \<not> distinct ys"
    using t0[THEN conjunct1] c0 by auto
  have B: "\<exists>ys r'. sample_class ?smp 2 1 (affine_rng 7 3) = Inr (ys, r') \<and> length ys = 2
             \<and> distinct ys"
    using t1[THEN conjunct1] c1 by auto
  have C: "sample_class ?smp 2 2 (affine_rng 7 3) = Inl ValueError"
    using t2[THEN conjunct2, THEN conjunct1] c2 by simp
  from t0[THEN conjunct2, THEN conjunct2, THEN conjunct2] all
  obtain pool r1 where p: "balanced_indices ?ds 2 (affine_rng 7 3) = Inr (pool, r1)" by blast
  from t0[THEN conjunct2, THEN conjunct2, THEN conjunct1] p
  have "length pool = length (classes ?ds) * 2" by blast
  with p len have D: "\<exists>pool r1. balanced_indices ?ds 2 (affine_rng 7 3) = Inr (pool, r1)
             \<and> length pool = 4" by auto
  from A B C D show ?thesis by blast
qed

text \<open>
  Claim C10.  In a run whose loaders are built, every position \<open>j\<close> of the pool holds a
  valid catalog index whose label is the class \<open>j div k\<close> it was sampled for, and every
  index of the training and validation lists comes from the pool, lies below
  \<open>len(catalog)\<close> and is retrieved without an IndexError.
\<close>

theorem sampled_indices_valid:
  assumes "get_data_loaders d root_node bs k r = Inr (train_loader, val_loader, r2)"
  shows "\<exists>ds pool r1. CustomImageFolder_init d root_node = Inr ds
           \<and> balanced_indices ds k r = Inr (pool, r1)
           \<and> dataset train_loader = ds \<and> dataset val_loader = ds
           \<and> (\<forall>j<length pool. pool ! j < length (samples ds)
                  \<and> snd (samples ds ! (pool ! j)) = j div k)
           \<and> (\<forall>i\<in>set (sampler train_loader) \<union> set (sampler val_loader).
                  i \<in> set pool \<and> i < length (samples ds)
                  \<and> getitem ds i = Inr (samples ds ! i))"
  using assms by (rule get_data_loaders_valid)

theorem sampled_indices_valid_witness:
  "\<exists>train_loader val_loader r2.
     get_data_loaders ''data''
       (Dir [(''b'', Dir [(''y.png'', File), (''notes.txt'', File)]),
             (''a'', Dir [(''s'', Dir [(''x.JPG'', File)])])])
       2 3 (affine_rng 7 3) = Inr (train_loader, val_loader, r2)
     \<and> (\<forall>i\<in>set (sampler train_loader) \<union> set (sampler val_loader).
           getitem (dataset train_loader) i = Inr (samples (dataset train_loader) ! i))"
proof -
  let ?t = "Dir [(''b'', Dir [(''y.png'', File), (''notes.txt'', File)]),
                 (''a'', Dir [(''s'', Dir [(''x.JPG'', File)])])]"
  let ?ds = "\<lparr>classes = [''a'', ''b''], class_to_idx = [(''a'', 0), (''b'', 1)],
              samples = [(''data/a/s/x.JPG'', 0), (''data/b/y.png'', 1)]\<rparr>"
  have i: "CustomImageFolder_init ''data'' ?t = Inr ?ds" by code_simp
  have "\<forall>c<length (classes ?ds). 1 \<le> class_count (samples ?ds) c \<or> (3::nat) = 0"
    by (auto simp: less_Suc_eq numeral_2_eq_2 class_count_def)
  from balanced_indices_succeeds[OF this] obtain pool r1 where
    b: "balanced_indices ?ds 3 (affine_rng 7 3) = Inr (pool, r1)" by blast
  from get_data_loaders_succeeds[OF i b, of 2] obtain train_loader val_loader r2 where
    g: "get_data_loaders ''data'' ?t 2 3 (affine_rng 7 3) = Inr (train_loader, val_loader, r2)"
    by auto
  from sampled_indices_valid[OF g] have
    "\<forall>i\<in>set (sampler train_loader) \<union> set (sampler val_loader).
           getitem (dataset train_loader) i = Inr (samples (dataset train_loader) ! i)"
    by auto
  with g show ?thesis by blast
qed

text \<open>
  Claim C1, as stated, fails when a class is oversampled: with one class of one image and
  \<open>num_img_per_class = 2\<close> the pool is \<open>[0, 0]\<close>, the split is at 1, and catalog
  entry 0 is in both the training and the validation list.
\<close>

theorem train_val_overlap_counterexample:
  "split_of (get_data_loaders ''data'' (Dir [(''a'', Dir [(''x.jpg'', File)])]) 16 2
      (affine_rng 0 0)) = Inr ([0], [0])"
  by code_simp

text \<open>
  Claim C1, amended.  In every run whose loaders are built, the training and validation
  index lists together are, as a multiset, the balanced pool, so their lengths add up to
  \<open>num_classes * num_img_per_class\<close>; they are disjoint whenever the pool has no repeated
  index, which is the case when every class has at least \<open>num_img_per_class\<close> entries.
\<close>

theorem train_val_partition:
  assumes "get_data_loaders d root_node bs k r = Inr (train_loader, val_loader, r2)"
  shows "\<exists>ds pool r1. CustomImageFolder_init d root_node = Inr ds
           \<and> balanced_indices ds k r = Inr (pool, r1)
           \<and> mset (sampler train_loader) + mset (sampler val_loader) = mset pool
           \<and> length (sampler train_loader) + length (sampler val_loader)
               = length (classes ds) * k
           \<and> (distinct pool \<longrightarrow> set (sampler train_loader) \<inter> set (sampler val_loader) = {})
           \<and> ((\<forall>c<length (classes ds). k \<le> class_count (samples ds) c) \<longrightarrow> distinct pool)"
proof -
  from get_data_loaders_Inr[OF assms] obtain ds pool r1 where
    i: "CustomImageFolder_init d root_node = Inr ds" and
    b: "balanced_indices ds k r = Inr (pool, r1)" and
    t: "train_loader = \<lparr>dataset = ds, batch_size = bs,
          sampler = take (split_point (length pool)) (fst (shuffle pool r1))\<rparr>" and
    v: "val_loader = \<lparr>dataset = ds, batch_size = bs,
          sampler = drop (split_point (length pool)) (fst (shuffle pool r1))\<rparr>"
    by blast
  let ?s = "fst (shuffle pool r1)" and ?n = "split_point (length pool)"
  have "mset (take ?n ?s) + mset (drop ?n ?s) = mset ?s"
    by (metis append_take_drop_id mset_append)
  then have m: "mset (sampler train_loader) + mset (sampler val_loader) = mset pool"
    by (simp add: t v shuffle_mset)
  have "length (sampler train_loader) + length (sampler val_loader) = length pool"
    using m by (metis size_mset size_union)
  then have l: "length (sampler train_loader) + length (sampler val_loader)
                  = length (classes ds) * k"
    by (simp add: balanced_indices_length[OF b])
  have dj: "set (sampler train_loader) \<inter> set (sampler val_loader) = {}" if "distinct pool"
  proof -
    from that have "distinct ?s" by (simp add: shuffle_distinct)
    then show ?thesis unfolding t v
      by (simp add: set_take_disj_set_drop_if_distinct)
  qed
  have dp: "distinct pool" if "\<forall>c<length (classes ds). k \<le> class_count (samples ds) c"
    using balanced_indices_distinct[OF b that] .
  from i b m l dj dp show ?thesis by blast
qed

theorem train_val_partition_witness:
  "\<exists>train_loader val_loader r2.
     get_data_loaders ''data''
       (Dir [(''b'', Dir [(''y.png'', File), (''notes.txt'', File)]),
             (''a'', Dir [(''s'', Dir [(''x.JPG'', File)])])])
       2 1 (affine_rng 7 3) = Inr (train_loader, val_loader, r2)
     \<and> length (sampler train_loader) + length (sampler val_loader) = 2
     \<and> set (sampler train_loader) \<inter> set (sampler val_loader) = {}"
proof -
  let ?t = "Dir [(''b'', Dir [(''y.png'', File), (''notes.txt'', File)]),
                 (''a'', Dir [(''s'', Dir [(''x.JPG'', File)])])]"
  let ?ds = "\<lparr>classes = [''a'', ''b''], class_to_idx = [(''a'', 0), (''b'', 1)],
              samples = [(''data/a/s/x.JPG'', 0), (''data/b/y.png'', 1)]\<rparr>"
  have i: "CustomImageFolder_init ''data'' ?t = Inr ?ds" by code_simp
  have c: "\<forall>c<length (classes ?ds). 1 \<le> class_count (samples ?ds) c"
    by (auto simp: less_Suc_eq numeral_2_eq_2 class_count_def)
  then have "\<forall>c<length (classes ?ds). 1 \<le> class_count (samples ?ds) c \<or> (1::nat) = 0"
    by blast
  from balanced_indices_succeeds[OF this] obtain pool r1 where
    b: "balanced_indices ?ds 1 (affine_rng 7 3) = Inr (pool, r1)" by blast
  from get_data_loaders_succeeds[OF i b, of 2] obtain train_loader val_loader r2 where
    g: "get_data_loaders ''data'' ?t 2 1 (affine_rng 7 3) = Inr (train_loader, val_loader, r2)"
    by auto
  from train_val_partition[OF g] i c have
    "length (sampler train_loader) + length (sampler val_loader) = 2
     \<and> set (sampler train_loader) \<inter> set (sampler val_loader) = {}"
    by auto
  with g show ?thesis by blast
qed

section \<open>Properties of the batch provider and of the training loop\<close>

declare chunks.simps [simp del]

lemma chunks_Nil [simp]: "chunks n [] = []"
  by (subst chunks.simps) simp

lemma chunks_length: "0 < n \<Longrightarrow> length (chunks n xs) = (length xs + n - 1) div n"
proof (induction n xs rule: chunks.induct)
  case (1 n xs)
  show ?case
  proof (cases "xs = []")
    case True
    then show ?thesis using 1(2) by simp
  next
    case False
    with 1 have IH: "length (chunks n (drop n xs)) = (length xs - n + n - 1) div n" by simp
    have c: "chunks n xs = take n xs # chunks n (drop n xs)"
      using False 1(2) by (subst chunks.simps) simp
    have pos: "0 < length xs" using False by simp
    have e: "length xs + n - 1 = (length xs - 1) + n" using pos by arith
    have d: "((length xs - 1) + n) div n = Suc ((length xs - 1) div n)" using 1(2) by simp
    have lhs: "(length xs + n - 1) div n = Suc ((length xs - 1) div n)"
      by (simp only: e d)
    have rhs: "(length xs - n + n - 1) div n = (length xs - 1) div n"
    proof (cases "n \<le> length xs")
      case True
      then show ?thesis by simp
    next
      case False
      then have z: "length xs - n = 0" and l1: "length xs - 1 < n" and l2: "n - 1 < n"
        using 1(2) by simp_all
      have "(length xs - n + n - 1) div n = (n - 1) div n" by (simp only: z add_0)
      also have "\<dots> = 0" using l2 by (rule div_less)
      also have "0 = (length xs - 1) div n" using l1 by (simp only: div_less)
      finally show ?thesis .
    qed
    show ?thesis by (simp only: c list.size length_Cons IH lhs rhs)
  qed
qed

lemma chunks_concat: "0 < n \<Longrightarrow> concat (chunks n xs) = xs"
proof (induction n xs rule: chunks.induct)
  case (1 n xs)
  show ?case
  proof (cases "xs = []")
    case True
    then show ?thesis by simp
  next
    case False
    then have "chunks n xs = take n xs # chunks n (drop n xs)"
      using 1(2) by (subst chunks.simps) simp
    then show ?thesis using 1 False by simp
  qed
qed


lemma fetch_Inr: "fetch ds b = Inr items \<Longrightarrow> items = map (\<lambda>i. samples ds ! i) b"
  by (induction b arbitrary: items) (auto simp: getitem_def split: sum.splits if_splits)

lemma fetch_length: "fetch ds b = Inr items \<Longrightarrow> length items = length b"
  by (drule fetch_Inr) simp

lemma fetch_succeeds:
  "\<forall>i\<in>set b. i < length (samples ds) \<Longrightarrow> \<exists>items. fetch ds b = Inr items"
  by (induction b) (auto simp: getitem_def)

lemma loader_batches_length:
  "0 < batch_size l \<Longrightarrow> length (fst (loader_batches l r)) = loader_len l"
  by (simp add: loader_batches_def split_def Let_def chunks_length loader_len_def
      permutation_def shuffle_length)

lemma permutation_nth_mset:
  "mset (map (\<lambda>i. xs ! i) (fst (permutation (length xs) r))) = mset xs"
proof -
  have "mset (fst (permutation (length xs) r)) = mset [0..<length xs]"
    by (simp add: permutation_def shuffle_mset)
  then have "mset (map (\<lambda>i. xs ! i) (fst (permutation (length xs) r)))
               = mset (map (\<lambda>i. xs ! i) [0..<length xs])"
    by (metis mset_map)
  then show ?thesis by (simp add: map_nth)
qed

lemma loader_batches_mset:
  "0 < batch_size l \<Longrightarrow> mset (concat (fst (loader_batches l r))) = mset (sampler l)"
  using permutation_nth_mset[of "sampler l" r]
  by (simp add: loader_batches_def split_def Let_def chunks_concat)

lemma loader_batches_set:
  assumes "0 < batch_size l" "b \<in> set (fst (loader_batches l r))"
  shows "set b \<subseteq> set (sampler l)"
proof -
  have "set (concat (fst (loader_batches l r))) = set (sampler l)"
    using loader_batches_mset[OF assms(1), of r] by (rule mset_eq_setD)
  with assms(2) show ?thesis by auto
qed

lemma scheduler_step_Inr:
  "scheduler_step s = Inr s' \<Longrightarrow>
     last_epoch s' = Suc (last_epoch s) \<and> total_steps s' = total_steps s
     \<and> last_epoch s < total_steps s"
  by (auto simp: scheduler_step_def split: if_splits)

lemma scheduler_step_succeeds:
  "last_epoch s < total_steps s \<Longrightarrow> \<exists>s'. scheduler_step s = Inr s'"
  by (simp add: scheduler_step_def)

lemma train_batches_Inr:
  "train_batches L ds epoch n bs i (st, rl, rc) = Inr (st', rl', rc') \<Longrightarrow>
     last_epoch (scheduler st') = last_epoch (scheduler st) + length bs
     \<and> total_steps (scheduler st') = total_steps (scheduler st)
     \<and> calls st' = calls st @ concat (replicate (length bs) [OptimizerStep, SchedulerStep])
     \<and> best_loss st' = best_loss st \<and> best_model_wts st' = best_model_wts st
     \<and> checkpoints st' = checkpoints st \<and> torch_rng st' = torch_rng st
     \<and> val_losses (writer st') = val_losses (writer st)"
proof (induction bs arbitrary: i st rl rc)
  case Nil
  then show ?case by simp
next
  case (Cons b bs)
  from Cons.prems obtain inputs where f: "fetch ds b = Inr inputs"
    by (auto split: sum.splits)
  obtain w ostate loss corrects where
    t: "train_batch L (last_epoch (scheduler st)) (weights st) (opt_state st) inputs
          = ((w, ostate), loss, corrects)"
    by (metis prod.exhaust)
  from Cons.prems f t obtain sch where s: "scheduler_step (scheduler st) = Inr sch"
    by (auto split: sum.splits)
  let ?st1 = "st\<lparr>weights := w, opt_state := ostate, scheduler := sch,
                  calls := calls st @ [OptimizerStep, SchedulerStep],
                  writer := writer st @
                    [(''Training Loss'', loss, epoch * n + i),
                     (''Learning Rate'', lr_value L (last_epoch sch), epoch * n + i)]\<rparr>"
  from Cons.prems f t s have
    "train_batches L ds epoch n bs (Suc i)
       (?st1, float_add rl (float_times loss (length inputs)), rc + corrects)
         = Inr (st', rl', rc')"
    by simp
  from Cons.IH[OF this] scheduler_step_Inr[OF s] show ?case
    by (simp add: val_losses_def replicate_append_same)
qed

lemma val_batches_Inr:
  "val_batches L ds bs (st, vl, vc) = Inr (st', vl', vc') \<Longrightarrow>
     st' = st\<lparr>calls := calls st @ replicate (length bs) EvalForward\<rparr>"
proof (induction bs arbitrary: st vl vc)
  case Nil
  then show ?case by simp
next
  case (Cons b bs)
  from Cons.prems obtain inputs where f: "fetch ds b = Inr inputs"
    by (auto split: sum.splits)
  from Cons.prems f have
    "val_batches L ds bs (st\<lparr>calls := calls st @ [EvalForward]\<rparr>,
        float_add vl (float_times (fst (eval_batch L (weights st) inputs)) (length inputs)),
        vc + snd (eval_batch L (weights st) inputs)) = Inr (st', vl', vc')"
    by (simp add: split_def Let_def)
  from Cons.IH[OF this] show ?case by (simp add: replicate_append_same)
qed


lemma training_phase_Inr:
  assumes "training_phase L l epoch st = Inr st'" "0 < batch_size l"
  shows "last_epoch (scheduler st') = last_epoch (scheduler st) + loader_len l
     \<and> total_steps (scheduler st') = total_steps (scheduler st)
     \<and> calls st' = calls st @ concat (replicate (loader_len l) [OptimizerStep, SchedulerStep])
     \<and> best_loss st' = best_loss st \<and> best_model_wts st' = best_model_wts st
     \<and> checkpoints st' = checkpoints st
     \<and> val_losses (writer st') = val_losses (writer st)"
proof -
  let ?tb = "fst (loader_batches l (torch_rng st))"
  let ?r1 = "snd (loader_batches l (torch_rng st))"
  from assms(1) obtain st1 rl rc where
    t: "train_batches L (dataset l) epoch (loader_len l) ?tb 0 (st\<lparr>torch_rng := ?r1\<rparr>, Finite 0, 0)
          = Inr (st1, rl, rc)"
    by (auto simp: training_phase_def split_def Let_def split: sum.splits)
  from assms(1) t have st': "st' = st1\<lparr>writer := writer st1 @
      [(''Epoch Training Loss'', float_div rl (length (samples (dataset l))), epoch),
       (''Epoch Training Accuracy'',
        Finite (of_nat rc / of_nat (length (samples (dataset l)))), epoch)]\<rparr>"
    by (auto simp: training_phase_def split_def Let_def split: if_splits)
  from train_batches_Inr[OF t] loader_batches_length[OF assms(2), of "torch_rng st"]
  show ?thesis unfolding st' by (simp add: val_losses_def)
qed

lemma validation_phase_Inr:
  assumes "validation_phase L l epoch st = Inr (st', v)" "0 < batch_size l"
  shows "scheduler st' = scheduler st
     \<and> calls st' = calls st @ replicate (loader_len l) EvalForward
     \<and> best_loss st' = best_loss st \<and> best_model_wts st' = best_model_wts st
     \<and> checkpoints st' = checkpoints st \<and> weights st' = weights st
     \<and> val_losses (writer st') = val_losses (writer st) @ [v]"
proof -
  let ?vb = "fst (loader_batches l (torch_rng st))"
  let ?r2 = "snd (loader_batches l (torch_rng st))"
  from assms(1) obtain st3 vs vc where
    t: "val_batches L (dataset l) ?vb (st\<lparr>torch_rng := ?r2\<rparr>, Finite 0, 0) = Inr (st3, vs, vc)"
    by (auto simp: validation_phase_def split_def Let_def split: sum.splits)
  from assms(1) t have st': "st' = st3\<lparr>writer := writer st3 @
      [(''Validation Loss'', v, epoch),
       (''Validation Accuracy'',
        Finite (of_nat vc / of_nat (length (samples (dataset l)))), epoch)]\<rparr>"
    by (auto simp: validation_phase_def split_def Let_def split: if_splits)
  from val_batches_Inr[OF t] loader_batches_length[OF assms(2), of "torch_rng st"]
  show ?thesis unfolding st' by (simp add: val_losses_def)
qed

lemma train_epoch_Inr:
  assumes "train_epoch L trl vll epoch st = Inr st'" "0 < batch_size trl" "0 < batch_size vll"
  shows "\<exists>v. val_losses (writer st') = val_losses (writer st) @ [v]
     \<and> last_epoch (scheduler st') = last_epoch (scheduler st) + loader_len trl
     \<and> total_steps (scheduler st') = total_steps (scheduler st)
     \<and> calls st' = calls st @ concat (replicate (loader_len trl) [OptimizerStep, SchedulerStep])
                      @ replicate (loader_len vll) EvalForward
     \<and> (if below v (best_loss st)
        then best_loss st' = v \<and> best_model_wts st' = weights st'
             \<and> checkpoints st' = checkpoints st @ [(Best epoch v, weights st')]
        else best_loss st' = best_loss st \<and> best_model_wts st' = best_model_wts st
             \<and> checkpoints st' = checkpoints st)"
proof -
  from assms(1) obtain st2 where t: "training_phase L trl epoch st = Inr st2"
    by (auto simp: train_epoch_def split: sum.splits)
  from assms(1) t obtain st4 v where
    vp: "validation_phase L vll epoch st2 = Inr (st4, v)" and
    st': "st' = checkpoint_step epoch v st4"
    by (auto simp: train_epoch_def split: sum.splits)
  from training_phase_Inr[OF t assms(2)] validation_phase_Inr[OF vp assms(3)]
  show ?thesis unfolding st' by (intro exI[of _ v]) (simp add: checkpoint_step_def)
qed

lemma epochs_loop_Inr:
  assumes "epochs_loop L trl vll es st = Inr st'" "0 < batch_size trl" "0 < batch_size vll"
  shows "\<exists>vs new. length vs = length es
     \<and> val_losses (writer st') = val_losses (writer st) @ vs
     \<and> last_epoch (scheduler st') = last_epoch (scheduler st) + length es * loader_len trl
     \<and> total_steps (scheduler st') = total_steps (scheduler st)
     \<and> calls st' = calls st
          @ concat (replicate (length es) (epoch_calls (loader_len trl) (loader_len vll)))
     \<and> checkpoints st' = checkpoints st @ new
     \<and> map fst new = map best_tag (improvements (best_loss st) (zip es vs))
     \<and> best_loss st' = best_after (best_loss st) vs
     \<and> best_model_wts st' = (if new = [] then best_model_wts st else snd (last new))"
  using assms(1)
proof (induction es arbitrary: st)
  case Nil
  then show ?case by simp
next
  case (Cons e es)
  from Cons.prems obtain st1 where
    e1: "train_epoch L trl vll e st = Inr st1" and
    rest: "epochs_loop L trl vll es st1 = Inr st'"
    by (auto split: sum.splits)
  from train_epoch_Inr[OF e1 assms(2,3)] obtain v where
    v: "val_losses (writer st1) = val_losses (writer st) @ [v]"
       "last_epoch (scheduler st1) = last_epoch (scheduler st) + loader_len trl"
       "total_steps (scheduler st1) = total_steps (scheduler st)"
       "calls st1 = calls st @ epoch_calls (loader_len trl) (loader_len vll)" and
    ck: "if below v (best_loss st)
        then best_loss st1 = v \<and> best_model_wts st1 = weights st1
             \<and> checkpoints st1 = checkpoints st @ [(Best e v, weights st1)]
        else best_loss st1 = best_loss st \<and> best_model_wts st1 = best_model_wts st
             \<and> checkpoints st1 = checkpoints st"
    unfolding epoch_calls_def by blast
  from Cons.IH[OF rest] obtain vs new where
    IH: "length vs = length es"
      "val_losses (writer st') = val_losses (writer st1) @ vs"
      "last_epoch (scheduler st') = last_epoch (scheduler st1) + length es * loader_len trl"
      "total_steps (scheduler st') = total_steps (scheduler st1)"
      "calls st' = calls st1
          @ concat (replicate (length es) (epoch_calls (loader_len trl) (loader_len vll)))"
      "checkpoints st' = checkpoints st1 @ new"
      "map fst new = map best_tag (improvements (best_loss st1) (zip es vs))"
      "best_loss st' = best_after (best_loss st1) vs"
      "best_model_wts st' = (if new = [] then best_model_wts st1 else snd (last new))"
    by blast
  show ?case
  proof (cases "below v (best_loss st)")
    case True
    with ck have c: "best_loss st1 = v" "best_model_wts st1 = weights st1"
      "checkpoints st1 = checkpoints st @ [(Best e v, weights st1)]" by simp_all
    show ?thesis
      apply (rule exI[of _ "v # vs"], rule exI[of _ "(Best e v, weights st1) # new"])
      using IH v c True by (simp add: best_tag_def)
  next
    case False
    with ck have c: "best_loss st1 = best_loss st" "best_model_wts st1 = best_model_wts st"
      "checkpoints st1 = checkpoints st" by simp_all
    show ?thesis
      apply (rule exI[of _ "v # vs"], rule exI[of _ new])
      using IH v c False by simp
  qed
qed

subsection \<open>The checkpoint rule on lists\<close>

lemma below_trans: "below a b \<Longrightarrow> below b c \<Longrightarrow> below a c"
  by (cases a; cases b; cases c) auto


lemma improvements_below: "ev \<in> set (improvements b evs) \<Longrightarrow> below (snd ev) b"
proof (induction evs arbitrary: b)
  case Nil
  then show ?case by simp
next
  case (Cons x evs)
  obtain e v where x: "x = (e, v)" by (cases x)
  show ?case
  proof (cases "below v b")
    case True
    with Cons.prems x have "ev = (e, v) \<or> ev \<in> set (improvements v evs)" by simp
    then show ?thesis
    proof
      assume "ev = (e, v)" then show ?thesis using True by simp
    next
      assume "ev \<in> set (improvements v evs)"
      from Cons.IH[OF this] have "below (snd ev) v" .
      then show ?thesis using True by (rule below_trans)
    qed
  next
    case False
    with Cons.prems x have "ev \<in> set (improvements b evs)" by simp
    then show ?thesis by (rule Cons.IH)
  qed
qed

lemma improvements_subset: "set (improvements b evs) \<subseteq> set evs"
  by (induction b evs rule: improvements.induct) auto

lemma improvements_decreasing:
  "sorted_wrt (\<lambda>x y. below (snd y) (snd x)) (improvements b evs)"
proof (induction b evs rule: improvements.induct)
  case (1 b)
  then show ?case by simp
next
  case (2 b e v rest)
  show ?case
  proof (cases "below v b")
    case True
    have "\<forall>y\<in>set (improvements v rest). below (snd y) v"
      using improvements_below[of _ v rest] by auto
    with 2 True show ?thesis by simp
  next
    case False
    with 2 show ?thesis by simp
  qed
qed

lemma improvements_append:
  "improvements b (xs @ ys)
     = improvements b xs @ improvements (best_after b (map snd xs)) ys"
proof (induction xs arbitrary: b)
  case Nil
  then show ?case by simp
next
  case (Cons x xs)
  obtain e v where x: "x = (e, v)" by (cases x)
  show ?case using Cons.IH[of v] Cons.IH[of b] x by simp
qed

lemma best_after_append: "best_after b (us @ vs) = best_after (best_after b us) vs"
  by (induction us arbitrary: b) simp_all




lemma best_after_unchanged:
  "\<forall>v\<in>set vs. \<not> below v b \<Longrightarrow> best_after b vs = b"
  by (induction vs) simp_all


subsection \<open>When the loop returns\<close>

lemma train_batches_succeeds:
  "\<forall>b\<in>set bs. \<forall>i\<in>set b. i < length (samples ds) \<Longrightarrow>
   last_epoch (scheduler st) + length bs \<le> total_steps (scheduler st) \<Longrightarrow>
   \<exists>res. train_batches L ds epoch n bs i (st, rl, rc) = Inr res"
proof (induction bs arbitrary: i st rl rc)
  case Nil
  then show ?case by simp
next
  case (Cons b bs)
  from Cons.prems(1) fetch_succeeds[of b ds] obtain inputs where
    f: "fetch ds b = Inr inputs" by auto
  obtain w ostate loss corrects where
    t: "train_batch L (last_epoch (scheduler st)) (weights st) (opt_state st) inputs
          = ((w, ostate), loss, corrects)"
    by (metis prod.exhaust)
  from Cons.prems(2) have "last_epoch (scheduler st) < total_steps (scheduler st)" by simp
  from scheduler_step_succeeds[OF this] obtain sch where
    s: "scheduler_step (scheduler st) = Inr sch" by blast
  let ?st1 = "st\<lparr>weights := w, opt_state := ostate, scheduler := sch,
                  calls := calls st @ [OptimizerStep, SchedulerStep],
                  writer := writer st @
                    [(''Training Loss'', loss, epoch * n + i),
                     (''Learning Rate'', lr_value L (last_epoch sch), epoch * n + i)]\<rparr>"
  have room: "last_epoch (scheduler ?st1) + length bs \<le> total_steps (scheduler ?st1)"
    using scheduler_step_Inr[OF s] Cons.prems(2) by simp
  have valid: "\<forall>b\<in>set bs. \<forall>i\<in>set b. i < length (samples ds)" using Cons.prems(1) by simp
  from Cons.IH[OF valid room, of "Suc i" "float_add rl (float_times loss (length inputs))"
      "rc + corrects"]
  show ?case using f t s by simp
qed

lemma val_batches_succeeds:
  "\<forall>b\<in>set bs. \<forall>i\<in>set b. i < length (samples ds) \<Longrightarrow>
   \<exists>res. val_batches L ds bs (st, vl, vc) = Inr res"
proof (induction bs arbitrary: st vl vc)
  case Nil
  then show ?case by simp
next
  case (Cons b bs)
  from Cons.prems fetch_succeeds[of b ds] obtain inputs where
    f: "fetch ds b = Inr inputs" by auto
  have valid: "\<forall>b\<in>set bs. \<forall>i\<in>set b. i < length (samples ds)" using Cons.prems by simp
  from Cons.IH[OF valid] show ?case using f by (simp add: split_def Let_def)
qed

lemma loader_batches_valid:
  assumes "0 < batch_size l" "\<forall>i\<in>set (sampler l). i < length (samples (dataset l))"
  shows "\<forall>b\<in>set (fst (loader_batches l r)). \<forall>i\<in>set b. i < length (samples (dataset l))"
  using loader_batches_set[OF assms(1)] assms(2) by blast

lemma training_phase_succeeds:
  assumes "0 < batch_size l" "\<forall>i\<in>set (sampler l). i < length (samples (dataset l))"
    "0 < length (samples (dataset l))"
    "last_epoch (scheduler st) + loader_len l \<le> total_steps (scheduler st)"
  shows "\<exists>st'. training_phase L l epoch st = Inr st'"
proof -
  let ?tb = "fst (loader_batches l (torch_rng st))"
  let ?r1 = "snd (loader_batches l (torch_rng st))"
  have room: "last_epoch (scheduler (st\<lparr>torch_rng := ?r1\<rparr>)) + length ?tb
                \<le> total_steps (scheduler (st\<lparr>torch_rng := ?r1\<rparr>))"
    using assms(4) loader_batches_length[OF assms(1), of "torch_rng st"] by simp
  from train_batches_succeeds[OF loader_batches_valid[OF assms(1,2)] room]
  obtain res where
    "train_batches L (dataset l) epoch (loader_len l) ?tb 0 (st\<lparr>torch_rng := ?r1\<rparr>, Finite 0, 0)
       = Inr res" by blast
  then show ?thesis using assms(3)
    by (cases res) (simp add: training_phase_def split_def Let_def)
qed

lemma validation_phase_succeeds:
  assumes "0 < batch_size l" "\<forall>i\<in>set (sampler l). i < length (samples (dataset l))"
    "0 < length (samples (dataset l))"
  shows "\<exists>res. validation_phase L l epoch st = Inr res"
proof -
  let ?vb = "fst (loader_batches l (torch_rng st))"
  let ?r2 = "snd (loader_batches l (torch_rng st))"
  from val_batches_succeeds[OF loader_batches_valid[OF assms(1,2)]]
  obtain res where
    "val_batches L (dataset l) ?vb (st\<lparr>torch_rng := ?r2\<rparr>, Finite 0, 0) = Inr res" by blast
  then show ?thesis using assms(3)
    by (cases res) (simp add: validation_phase_def split_def Let_def)
qed

lemma train_epoch_succeeds:
  assumes "0 < batch_size trl" "\<forall>i\<in>set (sampler trl). i < length (samples (dataset trl))"
    "0 < length (samples (dataset trl))"
    "0 < batch_size vll" "\<forall>i\<in>set (sampler vll). i < length (samples (dataset vll))"
    "0 < length (samples (dataset vll))"
    "last_epoch (scheduler st) + loader_len trl \<le> total_steps (scheduler st)"
  shows "\<exists>st'. train_epoch L trl vll epoch st = Inr st'"
proof -
  from training_phase_succeeds[OF assms(1,2,3,7)] obtain st2 where
    t: "training_phase L trl epoch st = Inr st2" by blast
  from validation_phase_succeeds[OF assms(4,5,6)] obtain res where
    v: "validation_phase L vll epoch st2 = Inr res" by blast
  show ?thesis using t v by (cases res) (simp add: train_epoch_def)
qed

lemma epochs_loop_succeeds:
  assumes "0 < batch_size trl" "\<forall>i\<in>set (sampler trl). i < length (samples (dataset trl))"
    "0 < length (samples (dataset trl))"
    "0 < batch_size vll" "\<forall>i\<in>set (sampler vll). i < length (samples (dataset vll))"
    "0 < length (samples (dataset vll))"
  shows "last_epoch (scheduler st) + length es * loader_len trl \<le> total_steps (scheduler st)
     \<Longrightarrow> \<exists>st'. epochs_loop L trl vll es st = Inr st'"
proof (induction es arbitrary: st)
  case Nil
  then show ?case by simp
next
  case (Cons e es)
  from Cons.prems have r1: "last_epoch (scheduler st) + loader_len trl \<le> total_steps (scheduler st)"
    by simp
  from train_epoch_succeeds[OF assms r1] obtain st1 where
    e1: "train_epoch L trl vll e st = Inr st1" by blast
  from train_epoch_Inr[OF e1 assms(1,4)] have
    "last_epoch (scheduler st1) = last_epoch (scheduler st) + loader_len trl"
    "total_steps (scheduler st1) = total_steps (scheduler st)" by auto
  with Cons.prems have "last_epoch (scheduler st1) + length es * loader_len trl
                          \<le> total_steps (scheduler st1)" by simp
  from Cons.IH[OF this] show ?case using e1 by simp
qed

subsection \<open>train_model and main\<close>

lemma val_losses_Nil: "val_losses [] = []"
  by (simp add: val_losses_def)

lemma train_model_Inr:
  assumes "train_model L model ostate sched trl vll N r = Inr st"
    "0 < batch_size trl" "0 < batch_size vll"
  shows "length (val_losses (writer st)) = N
     \<and> last_epoch (scheduler st) = last_epoch sched + N * loader_len trl
     \<and> total_steps (scheduler st) = total_steps sched
     \<and> calls st = concat (replicate N (epoch_calls (loader_len trl) (loader_len vll)))
     \<and> map fst (checkpoints st)
         = map best_tag (improvements PosInf (zip [0..<N] (val_losses (writer st))))
     \<and> best_loss st = best_after PosInf (val_losses (writer st))
     \<and> weights st = (if checkpoints st = [] then model else snd (last (checkpoints st)))"
proof -
  let ?st0 = "initial_state model ostate sched r"
  from assms(1) obtain st1 where
    l: "epochs_loop L trl vll [0..<N] ?st0 = Inr st1" and
    st: "st = st1\<lparr>weights := best_model_wts st1\<rparr>"
    by (auto simp: train_model_def split: sum.splits)
  from epochs_loop_Inr[OF l assms(2,3)] obtain vs new where
    "length vs = N" "val_losses (writer st1) = vs"
    "last_epoch (scheduler st1) = last_epoch sched + N * loader_len trl"
    "total_steps (scheduler st1) = total_steps sched"
    "calls st1 = concat (replicate N (epoch_calls (loader_len trl) (loader_len vll)))"
    "checkpoints st1 = new"
    "map fst new = map best_tag (improvements PosInf (zip [0..<N] vs))"
    "best_loss st1 = best_after PosInf vs"
    "best_model_wts st1 = (if new = [] then model else snd (last new))"
    by (auto simp: val_losses_Nil initial_state_def)
  then show ?thesis unfolding st by simp
qed

lemma train_model_succeeds:
  assumes "0 < batch_size trl" "\<forall>i\<in>set (sampler trl). i < length (samples (dataset trl))"
    "0 < length (samples (dataset trl))"
    "0 < batch_size vll" "\<forall>i\<in>set (sampler vll). i < length (samples (dataset vll))"
    "0 < length (samples (dataset vll))"
    "last_epoch sched + N * loader_len trl \<le> total_steps sched"
  shows "\<exists>st. train_model L model ostate sched trl vll N r = Inr st"
proof -
  let ?st0 = "initial_state model ostate sched r"
  have "last_epoch (scheduler ?st0) + length [0..<N] * loader_len trl
          \<le> total_steps (scheduler ?st0)" using assms(7) by (simp add: initial_state_def)
  from epochs_loop_succeeds[OF assms(1-6) this, of L] obtain st' where
    "epochs_loop L trl vll [0..<N] ?st0 = Inr st'" by blast
  then show ?thesis by (simp add: train_model_def)
qed


lemma split_point_pos: "2 \<le> n \<Longrightarrow> 0 < split_point n"
  by (simp add: split_point_div)

lemma split_point_less: "0 < n \<Longrightarrow> split_point n < n"
  by (simp add: split_point_div)

lemma loader_len_pos: "0 < batch_size l \<Longrightarrow> sampler l \<noteq> [] \<Longrightarrow> 0 < loader_len l"
  by (cases "sampler l") (simp_all add: loader_len_def div_greater_zero_iff)

lemma main_succeeds:
  assumes i: "CustomImageFolder_init dp root_node = Inr ds"
    and c: "\<forall>c<length (classes ds). 1 \<le> class_count (samples ds) c"
    and bs: "0 < bs" and N: "0 < N" and n: "2 \<le> length (classes ds) * k"
  shows "\<exists>st. main dp root_node bs k N L model ostate npr tr = Inr st"
proof -
  from c have "\<forall>c<length (classes ds). 1 \<le> class_count (samples ds) c \<or> k = 0" by blast
  from balanced_indices_succeeds[OF this] obtain pool r1 where
    b: "balanced_indices ds k npr = Inr (pool, r1)" by blast
  from get_data_loaders_succeeds[OF i b bs] obtain trl vll r2 where
    g: "get_data_loaders dp root_node bs k npr = Inr (trl, vll, r2)" by blast
  from get_data_loaders_Inr[OF g] i b have
    t: "trl = \<lparr>dataset = ds, batch_size = bs,
          sampler = take (split_point (length pool)) (fst (shuffle pool r1))\<rparr>" and
    v: "vll = \<lparr>dataset = ds, batch_size = bs,
          sampler = drop (split_point (length pool)) (fst (shuffle pool r1))\<rparr>"
    by auto
  have len: "length pool = length (classes ds) * k" using balanced_indices_length[OF b] .
  have "length (sampler trl) = split_point (length pool)"
    by (simp add: t shuffle_length split_point_div)
  then have "sampler trl \<noteq> []"
    using split_point_pos[of "length pool"] n len by auto
  then have lpos: "0 < loader_len trl" using bs t by (intro loader_len_pos) simp_all
  from get_data_loaders_valid[OF g] i have
    valid: "\<forall>i\<in>set (sampler trl) \<union> set (sampler vll). i < length (samples ds)"
    by auto
  have "0 < length (classes ds)" using n by (cases "length (classes ds)") auto
  with c have "1 \<le> class_count (samples ds) 0" by blast
  then have ne: "0 < length (samples ds)"
    by (auto simp: class_count_def intro: Suc_le_lessD gr0I)
  let ?sched = "\<lparr>total_steps = N * loader_len trl, last_epoch = 0\<rparr>"
  have "\<exists>st. train_model L model ostate ?sched trl vll N tr = Inr st"
    by (rule train_model_succeeds) (use valid ne bs in \<open>simp_all add: t v\<close>)
  then obtain st where "train_model L model ostate ?sched trl vll N tr = Inr st" by blast
  then show ?thesis using g N lpos by (simp add: main_def OneCycleLR_init_def)
qed

lemma best_tag_inj: "best_tag x = best_tag y \<Longrightarrow> x = y"
  by (cases x, cases y) (simp add: best_tag_def)

lemma count_scheduler_steps:
  "length (filter (\<lambda>c. c = SchedulerStep) (concat (replicate N (epoch_calls n m)))) = N * n"
proof -
  have a: "length (filter (\<lambda>c. c = SchedulerStep)
             (concat (replicate n [OptimizerStep, SchedulerStep]))) = n"
    by (induction n) simp_all
  have b: "filter (\<lambda>c. c = SchedulerStep) (replicate m EvalForward) = []"
    by (induction m) simp_all
  have "length (filter (\<lambda>c. c = SchedulerStep) (epoch_calls n m)) = n"
    by (simp add: epoch_calls_def a b)
  then show ?thesis by (induction N) simp_all
qed

lemma zip_upt_split:
  assumes "length vs = N" "e < N"
  shows "zip [0..<N] vs
           = zip [0..<e] (take e vs) @ (e, vs ! e) # zip [Suc e..<N] (drop (Suc e) vs)"
proof -
  have u: "[0..<N] = [0..<e] @ e # [Suc e..<N]"
    using assms(2) by (metis le_add1 less_imp_add_positive plus_nat.add_0 upt_add_eq_append upt_conv_Cons)
  have v: "vs = take e vs @ vs ! e # drop (Suc e) vs"
    using assms by (simp add: id_take_nth_drop)
  have "zip ([0..<e] @ e # [Suc e..<N]) (take e vs @ vs ! e # drop (Suc e) vs)
          = zip [0..<e] (take e vs) @ zip (e # [Suc e..<N]) (vs ! e # drop (Suc e) vs)"
    using assms by (intro zip_append) simp
  then show ?thesis using u v by (metis zip_Cons_Cons)
qed

lemma checkpoint_written_iff:
  assumes "length vs = N" "e < N"
  shows "((e, vs ! e) \<in> set (improvements PosInf (zip [0..<N] vs)))
           = below (vs ! e) (best_after PosInf (take e vs))"
proof -
  let ?pre = "zip [0..<e] (take e vs)" and ?post = "zip [Suc e..<N] (drop (Suc e) vs)"
  let ?b = "best_after PosInf (take e vs)"
  have ms: "map snd ?pre = take e vs" using assms by simp
  have "improvements PosInf (zip [0..<N] vs)
          = improvements PosInf ?pre @ improvements ?b ((e, vs ! e) # ?post)"
    unfolding zip_upt_split[OF assms] improvements_append ms ..
  moreover have "(e, vs ! e) \<notin> set (improvements PosInf ?pre)"
  proof
    assume "(e, vs ! e) \<in> set (improvements PosInf ?pre)"
    then have "(e, vs ! e) \<in> set ?pre" using improvements_subset by blast
    then have "e \<in> set [0..<e]" by (rule set_zip_leftD)
    then show False by simp
  qed
  moreover have "(e, vs ! e) \<notin> set (improvements c ?post)" for c
  proof
    assume "(e, vs ! e) \<in> set (improvements c ?post)"
    then have "(e, vs ! e) \<in> set ?post" using improvements_subset by blast
    then have "e \<in> set [Suc e..<N]" by (rule set_zip_leftD)
    then show False by simp
  qed
  ultimately show ?thesis by simp
qed






section \<open>The claims about the training loop\<close>

text \<open>
  Claim C5.  The best loss starts at infinity.  In a run of \<open>train_model\<close> that returns,
  every epoch reports one validation loss; the best checkpoints written are, in save
  order, exactly the epochs whose validation loss is strictly below the best of the
  epochs before them (below infinity for the first epoch), each tagged with its epoch and
  loss; nothing else is written; and their losses are strictly decreasing in save order.
  The comparison is that of floats, \<open>below\<close>, so an epoch whose loss is NaN or infinity
  writes nothing.
\<close>

theorem best_checkpoint_rule:
  assumes "train_model L model ostate sched trl vll N r = Inr st"
    "0 < batch_size trl" "0 < batch_size vll"
  shows "length (val_losses (writer st)) = N
     \<and> map fst (checkpoints st)
         = map best_tag (improvements PosInf (zip [0..<N] (val_losses (writer st))))
     \<and> (\<forall>e<N. (Best e (val_losses (writer st) ! e) \<in> fst ` set (checkpoints st))
                = below (val_losses (writer st) ! e)
                    (best_after PosInf (take e (val_losses (writer st)))))
     \<and> (\<forall>t\<in>fst ` set (checkpoints st). \<exists>e<N. t = Best e (val_losses (writer st) ! e))
     \<and> sorted_wrt (\<lambda>x y. below (snd y) (snd x))
          (improvements PosInf (zip [0..<N] (val_losses (writer st))))"
proof -
  let ?vs = "val_losses (writer st)"
  let ?imps = "improvements PosInf (zip [0..<N] ?vs)"
  from train_model_Inr[OF assms] have
    len: "length ?vs = N" and ck: "map fst (checkpoints st) = map best_tag ?imps"
    by simp_all
  have tags: "fst ` set (checkpoints st) = best_tag ` set ?imps"
    using ck by (metis set_map)
  have iff: "(Best e (?vs ! e) \<in> fst ` set (checkpoints st))
               = below (?vs ! e) (best_after PosInf (take e ?vs))" if "e < N" for e
  proof -
    have "(Best e (?vs ! e) \<in> fst ` set (checkpoints st)) = ((e, ?vs ! e) \<in> set ?imps)"
    proof
      assume "Best e (?vs ! e) \<in> fst ` set (checkpoints st)"
      then obtain ev where ev: "ev \<in> set ?imps" "best_tag ev = Best e (?vs ! e)"
        unfolding tags by auto
      have "best_tag ev = best_tag (e, ?vs ! e)" using ev(2) by (simp add: best_tag_def)
      then have "ev = (e, ?vs ! e)" by (rule best_tag_inj)
      with ev(1) show "(e, ?vs ! e) \<in> set ?imps" by simp
    next
      assume "(e, ?vs ! e) \<in> set ?imps"
      then have "best_tag (e, ?vs ! e) \<in> best_tag ` set ?imps" by (rule imageI)
      then show "Best e (?vs ! e) \<in> fst ` set (checkpoints st)"
        unfolding tags by (simp add: best_tag_def)
    qed
    then show ?thesis using checkpoint_written_iff[OF len that] by simp
  qed
  have only: "\<exists>e<N. t = Best e (?vs ! e)" if "t \<in> fst ` set (checkpoints st)" for t
  proof -
    from that tags obtain ev where ev: "ev \<in> set ?imps" "t = best_tag ev" by auto
    then have "ev \<in> set (zip [0..<N] ?vs)" using improvements_subset by blast
    then obtain j where "j < N" "ev = (j, ?vs ! j)"
      using len by (auto simp: in_set_conv_nth)
    then show ?thesis using ev(2) by (auto simp: best_tag_def)
  qed
  from len ck iff only improvements_decreasing[of PosInf "zip [0..<N] ?vs"]
  show ?thesis by blast
qed


theorem best_checkpoint_rule_witness:
  "\<exists>st. train_model counting_learner 0 () \<lparr>total_steps = 4, last_epoch = 0\<rparr>
          \<lparr>dataset = \<lparr>classes = [''a'', ''b''], class_to_idx = [(''a'', 0), (''b'', 1)],
                       samples = [(''data/a/s/x.JPG'', 0), (''data/b/y.png'', 1)]\<rparr>,
           batch_size = 2, sampler = [1, 0, 0, 1]\<rparr>
          \<lparr>dataset = \<lparr>classes = [''a'', ''b''], class_to_idx = [(''a'', 0), (''b'', 1)],
                       samples = [(''data/a/s/x.JPG'', 0), (''data/b/y.png'', 1)]\<rparr>,
           batch_size = 2, sampler = [0, 1]\<rparr>
          2 (affine_rng 5 1) = Inr st
        \<and> val_losses (writer st) = [Finite 2, Finite 4]
        \<and> map fst (checkpoints st) = [Best 0 (Finite 2)]"
proof -
  let ?ds = "\<lparr>classes = [''a'', ''b''], class_to_idx = [(''a'', 0), (''b'', 1)],
              samples = [(''data/a/s/x.JPG'', 0), (''data/b/y.png'', 1)]\<rparr>"
  let ?trl = "\<lparr>dataset = ?ds, batch_size = 2, sampler = [1, 0, 0, 1]\<rparr>"
  let ?vll = "\<lparr>dataset = ?ds, batch_size = 2, sampler = [0, 1]\<rparr>"
  let ?run = "train_model counting_learner 0 () \<lparr>total_steps = 4, last_epoch = 0\<rparr>
                ?trl ?vll 2 (affine_rng 5 1)"
  have "map_sum id (\<lambda>st. val_losses (writer st)) ?run = Inr [Finite 2, Finite 4]" by code_simp
  then obtain st where st: "?run = Inr st" and vs: "val_losses (writer st) = [Finite 2, Finite 4]"
    by (cases ?run) auto
  have b1: "0 < batch_size ?trl" and b2: "0 < batch_size ?vll" by simp_all
  from best_checkpoint_rule[OF st b1 b2] have
    "map fst (checkpoints st) = map best_tag (improvements PosInf (zip [0..<2] [Finite 2, Finite 4]))"
    unfolding vs by blast
  also have "\<dots> = [Best 0 (Finite 2)]" by (simp add: numeral_2_eq_2 best_tag_def)
  finally have ck: "map fst (checkpoints st) = [Best 0 (Finite 2)]" .
  show ?thesis
  proof (intro exI conjI)
    show "?run = Inr st" by (rule st)
    show "val_losses (writer st) = [Finite 2, Finite 4]" by (rule vs)
    show "map fst (checkpoints st) = [Best 0 (Finite 2)]" by (rule ck)
  qed
qed


text \<open>
  Claim C7.  In a run of \<open>train_model\<close> that returns, the calls made are, for each of the
  \<open>num_epochs\<close> epochs, one optimizer step followed by one schedule step for each of the
  \<open>len(train_loader)\<close> training batches, then the validation forward passes, in which the
  schedule is not stepped; the schedule has advanced by \<open>num_epochs * len(train_loader)\<close>,
  and every pass over the training loader has \<open>len(train_loader)\<close> batches.
\<close>

theorem schedule_stepped_once_per_batch:
  assumes "train_model L model ostate sched trl vll N r = Inr st"
    "0 < batch_size trl" "0 < batch_size vll"
  shows "last_epoch (scheduler st) = last_epoch sched + N * loader_len trl
     \<and> calls st = concat (replicate N
          (concat (replicate (loader_len trl) [OptimizerStep, SchedulerStep])
           @ replicate (loader_len vll) EvalForward))
     \<and> length (filter (\<lambda>c. c = SchedulerStep) (calls st)) = N * loader_len trl
     \<and> (\<forall>r'. length (fst (loader_batches trl r')) = loader_len trl)"
proof -
  from train_model_Inr[OF assms] have
    a: "last_epoch (scheduler st) = last_epoch sched + N * loader_len trl" and
    b: "calls st = concat (replicate N (epoch_calls (loader_len trl) (loader_len vll)))"
    by simp_all
  have c: "length (filter (\<lambda>c. c = SchedulerStep) (calls st)) = N * loader_len trl"
    unfolding b by (rule count_scheduler_steps)
  from a b c loader_batches_length[OF assms(2)] show ?thesis
    by (simp add: epoch_calls_def)
qed

theorem schedule_stepped_once_per_batch_witness:
  "\<exists>st. train_model counting_learner 0 () \<lparr>total_steps = 4, last_epoch = 0\<rparr>
          \<lparr>dataset = \<lparr>classes = [''a'', ''b''], class_to_idx = [(''a'', 0), (''b'', 1)],
                       samples = [(''data/a/s/x.JPG'', 0), (''data/b/y.png'', 1)]\<rparr>,
           batch_size = 2, sampler = [1, 0, 0, 1]\<rparr>
          \<lparr>dataset = \<lparr>classes = [''a'', ''b''], class_to_idx = [(''a'', 0), (''b'', 1)],
                       samples = [(''data/a/s/x.JPG'', 0), (''data/b/y.png'', 1)]\<rparr>,
           batch_size = 2, sampler = [0, 1]\<rparr>
          2 (affine_rng 5 1) = Inr st
        \<and> last_epoch (scheduler st) = 4
        \<and> calls st = [OptimizerStep, SchedulerStep, OptimizerStep, SchedulerStep, EvalForward,
                       OptimizerStep, SchedulerStep, OptimizerStep, SchedulerStep, EvalForward]"
proof -
  let ?ds = "\<lparr>classes = [''a'', ''b''], class_to_idx = [(''a'', 0), (''b'', 1)],
              samples = [(''data/a/s/x.JPG'', 0), (''data/b/y.png'', 1)]\<rparr>"
  let ?trl = "\<lparr>dataset = ?ds, batch_size = 2, sampler = [1, 0, 0, 1]\<rparr>"
  let ?vll = "\<lparr>dataset = ?ds, batch_size = 2, sampler = [0, 1]\<rparr>"
  let ?sched = "\<lparr>total_steps = 4, last_epoch = 0\<rparr>"
  have b1: "0 < batch_size ?trl" and b2: "0 < batch_size ?vll" by simp_all
  have l1: "loader_len ?trl = 2" and l2: "loader_len ?vll = 1"
    by (simp_all add: loader_len_def)
  have v1: "\<forall>i\<in>set (sampler ?trl). i < length (samples (dataset ?trl))" by simp
  have v2: "\<forall>i\<in>set (sampler ?vll). i < length (samples (dataset ?vll))" by simp
  have n1: "0 < length (samples (dataset ?trl))" and n2: "0 < length (samples (dataset ?vll))"
    by simp_all
  have room: "last_epoch ?sched + 2 * loader_len ?trl \<le> total_steps ?sched"
    by (simp add: loader_len_def)
  from train_model_succeeds[OF b1 v1 n1 b2 v2 n2 room, of counting_learner 0 "()" "affine_rng 5 1"]
  obtain st where
    st: "train_model counting_learner 0 () ?sched ?trl ?vll 2 (affine_rng 5 1) = Inr st"
    by blast
  have c: "concat (replicate 2 (concat (replicate 2 [OptimizerStep, SchedulerStep])
                     @ replicate 1 EvalForward))
           = [OptimizerStep, SchedulerStep, OptimizerStep, SchedulerStep, EvalForward,
              OptimizerStep, SchedulerStep, OptimizerStep, SchedulerStep, EvalForward]"
    by code_simp
  from schedule_stepped_once_per_batch[OF st b1 b2] have
    "last_epoch (scheduler st) = last_epoch ?sched + 2 * 2
     \<and> calls st = concat (replicate 2 (concat (replicate 2 [OptimizerStep, SchedulerStep])
                     @ replicate 1 EvalForward))"
    unfolding l1 l2 by blast
  then have
    "last_epoch (scheduler st) = 4
     \<and> calls st = [OptimizerStep, SchedulerStep, OptimizerStep, SchedulerStep, EvalForward,
                    OptimizerStep, SchedulerStep, OptimizerStep, SchedulerStep, EvalForward]"
    unfolding c by simp
  then have le: "last_epoch (scheduler st) = 4"
    and cl: "calls st = [OptimizerStep, SchedulerStep, OptimizerStep, SchedulerStep, EvalForward,
                    OptimizerStep, SchedulerStep, OptimizerStep, SchedulerStep, EvalForward]"
    by (rule conjunct1, rule conjunct2)
  show ?thesis
  proof (intro exI conjI)
    show "train_model counting_learner 0 () ?sched ?trl ?vll 2 (affine_rng 5 1) = Inr st"
      by (rule st)
    show "last_epoch (scheduler st) = 4" by (rule le)
    show "calls st = [OptimizerStep, SchedulerStep, OptimizerStep, SchedulerStep, EvalForward,
                    OptimizerStep, SchedulerStep, OptimizerStep, SchedulerStep, EvalForward]"
      by (rule cl)
  qed
qed




text \<open>
  Claim C3 against the code.  A catalog of three images in one class, two images per
  class, batches of at most 2, one epoch: the training list has 1 index and the validation
  list 1 index.  With the learner whose training loss is 1 on every batch, whose
  validation loss is the number of optimizer steps taken (here 1) and whose predictions
  are all correct, the sums over batches of loss times batch size are 1 and 1 and the
  counts of correct predictions 1 and 1, so the claim's formulas give loss 1 and accuracy
  1 for both phases.  The run reports 1/3 for all four: it divides by the length of the
  catalog.
\<close>

theorem epoch_metrics_divide_by_catalog_length:
  "split_of (get_data_loaders ''data''
       (Dir [(''a'', Dir [(''x.jpg'', File), (''y.jpg'', File), (''z.jpg'', File)])])
       2 2 (affine_rng 7 3))
     = Inr ([1], [2])
   \<and> epoch_scalars (main ''data''
       (Dir [(''a'', Dir [(''x.jpg'', File), (''y.jpg'', File), (''z.jpg'', File)])])
       2 2 1 counting_learner 0 () (affine_rng 7 3) (affine_rng 5 1))
     = Inr [(''Epoch Training Loss'', Finite (1 / 3), 0),
            (''Epoch Training Accuracy'', Finite (1 / 3), 0),
            (''Validation Loss'', Finite (1 / 3), 0),
            (''Validation Accuracy'', Finite (1 / 3), 0)]"
  by code_simp

subsection \<open>The catalog on degenerate trees\<close>

lemma CustomImageFolder_init_Dir:
  "CustomImageFolder_init dp (Dir entries)
     = Inr \<lparr>classes = sort [fst e. e \<leftarrow> entries, is_dir (snd e)],
            class_to_idx = dict_of_enumerate (sort [fst e. e \<leftarrow> entries, is_dir (snd e)]),
            samples = make_dataset dp entries
                        (dict_of_enumerate (sort [fst e. e \<leftarrow> entries, is_dir (snd e)]))\<rparr>"
  by (simp add: CustomImageFolder_init_def find_classes_def Let_def)

lemma CustomImageFolder_init_Inr:
  "CustomImageFolder_init dp root_node = Inr ds \<Longrightarrow>
     \<exists>entries. root_node = Dir entries
       \<and> classes ds = sort [fst e. e \<leftarrow> entries, is_dir (snd e)]
       \<and> class_to_idx ds = dict_of_enumerate (classes ds)
       \<and> samples ds = make_dataset dp entries (class_to_idx ds)"
  by (cases root_node) (auto simp: CustomImageFolder_init_def find_classes_def Let_def)

lemma make_dataset_no_classes: "make_dataset dp entries (dict_of_enumerate []) = []"
  by (simp add: make_dataset_def dict_of_enumerate_def)

lemma shuffle_Nil: "shuffle [] r = ([], r)"
  by (simp add: shuffle_def)

lemma main_no_classes:
  assumes "CustomImageFolder_init dp root_node = Inr ds" "classes ds = []"
  shows "main dp root_node bs k N L model ostate npr tr = Inl ValueError"
proof -
  have b: "balanced_indices ds k npr = Inr ([], npr)"
    by (simp add: balanced_indices_def assms(2))
  have sp: "split_indices [] npr = (([], []), npr)"
    by (simp add: split_indices_def shuffle_Nil)
  show ?thesis
  proof (cases "bs = 0")
    case True
    then show ?thesis
      by (simp add: main_def get_data_loaders_def assms(1) b sp DataLoader_init_def)
  next
    case False
    then have "get_data_loaders dp root_node bs k npr
                 = Inr (\<lparr>dataset = ds, batch_size = bs, sampler = []\<rparr>,
                        \<lparr>dataset = ds, batch_size = bs, sampler = []\<rparr>, npr)"
      by (simp add: get_data_loaders_def assms(1) b sp DataLoader_init_def)
    moreover have "loader_len \<lparr>dataset = ds, batch_size = bs, sampler = []\<rparr> = 0"
      using False by (simp add: loader_len_def)
    ultimately show ?thesis by (simp add: main_def OneCycleLR_init_def)
  qed
qed

lemma get_data_loaders_empty_class:
  assumes "CustomImageFolder_init dp root_node = Inr ds" "c < length (classes ds)"
    "class_count (samples ds) c = 0" "0 < k"
  shows "get_data_loaders dp root_node bs k r = Inl ValueError"
  using balanced_indices_fails[OF assms(2,3,4), of r] assms(1)
  by (simp add: get_data_loaders_def)


section \<open>The claims about the catalog\<close>

text \<open>
  Claim C4, as stated, fails: a root without class subdirectories gives the empty catalog
  and no error, and a class directory without image files gives a catalog in which that
  class has no entry, and no error.
\<close>

theorem catalog_no_error_counterexample:
  "CustomImageFolder_init ''data'' (Dir [])
     = Inr \<lparr>classes = [], class_to_idx = [], samples = []\<rparr>
   \<and> CustomImageFolder_init ''data''
       (Dir [(''a'', Dir [(''readme.txt'', File)]), (''b'', Dir [(''x.png'', File)])])
     = Inr \<lparr>classes = [''a'', ''b''], class_to_idx = [(''a'', 0), (''b'', 1)],
            samples = [(''data/b/x.png'', 1)]\<rparr>"
  by code_simp


text \<open>
  Claim C4, amended.  Catalog construction on a root directory never raises: it returns
  a catalog whose classes are the sorted names of the subdirectories, without entries
  when there are no classes.  The run is still aborted before training starts, by a
  ValueError: from the sampler (in \<open>get_data_loaders\<close>) when a class of the catalog has no
  entry and \<open>num_img_per_class\<close> is positive, and from the schedule's constructor when the
  catalog has no classes.
\<close>

theorem catalog_construction_never_raises:
  "(\<exists>ds. CustomImageFolder_init dp (Dir entries) = Inr ds
        \<and> classes ds = sort [fst e. e \<leftarrow> entries, is_dir (snd e)]
        \<and> (classes ds = [] \<longrightarrow> samples ds = []))
   \<and> (CustomImageFolder_init dp root_node = Inr cat \<and> c < length (classes cat)
        \<and> class_count (samples cat) c = 0 \<and> 0 < k \<longrightarrow>
         get_data_loaders dp root_node bs k npr = Inl ValueError
         \<and> main dp root_node bs k N L model ostate npr tr = Inl ValueError)
   \<and> (CustomImageFolder_init dp root_node = Inr cat \<and> classes cat = [] \<longrightarrow>
         main dp root_node bs k N L model ostate npr tr = Inl ValueError)"
proof (intro conjI impI)
  show "\<exists>ds. CustomImageFolder_init dp (Dir entries) = Inr ds
        \<and> classes ds = sort [fst e. e \<leftarrow> entries, is_dir (snd e)]
        \<and> (classes ds = [] \<longrightarrow> samples ds = [])"
    by (simp add: CustomImageFolder_init_Dir make_dataset_no_classes)
next
  assume a: "CustomImageFolder_init dp root_node = Inr cat \<and> c < length (classes cat)
        \<and> class_count (samples cat) c = 0 \<and> 0 < k"
  then have "CustomImageFolder_init dp root_node = Inr cat" "c < length (classes cat)"
    "class_count (samples cat) c = 0" "0 < k"
    by simp_all
  then have g: "get_data_loaders dp root_node bs k npr = Inl ValueError"
    by (rule get_data_loaders_empty_class)
  then show "get_data_loaders dp root_node bs k npr = Inl ValueError" .
  from g show "main dp root_node bs k N L model ostate npr tr = Inl ValueError"
    by (simp add: main_def)
next
  assume "CustomImageFolder_init dp root_node = Inr cat \<and> classes cat = []"
  then have "CustomImageFolder_init dp root_node = Inr cat" "classes cat = []"
    by (rule conjunct1, rule conjunct2)
  then show "main dp root_node bs k N L model ostate npr tr = Inl ValueError"
    by (rule main_no_classes)
qed

theorem catalog_construction_never_raises_witness:
  "get_data_loaders ''data''
       (Dir [(''a'', Dir [(''readme.txt'', File)]), (''b'', Dir [(''x.png'', File)])])
       16 4000 (affine_rng 7 3) = Inl ValueError
   \<and> main ''data'' (Dir []) 16 4000 150 counting_learner 0 () (affine_rng 7 3) (affine_rng 5 1)
       = Inl ValueError"
proof -
  let ?t = "Dir [(''a'', Dir [(''readme.txt'', File)]), (''b'', Dir [(''x.png'', File)])]"
  let ?cat = "\<lparr>classes = [''a'', ''b''], class_to_idx = [(''a'', 0), (''b'', 1)],
               samples = [(''data/b/x.png'', 1)]\<rparr>"
  let ?none = "\<lparr>classes = [], class_to_idx = [], samples = []\<rparr> :: CustomImageFolder"
  have i: "CustomImageFolder_init ''data'' ?t = Inr ?cat" by code_simp
  have i0: "CustomImageFolder_init ''data'' (Dir []) = Inr ?none" by code_simp
  have l: "0 < length (classes ?cat)" by simp
  have z: "class_count (samples ?cat) 0 = 0" by (simp add: class_count_def)
  have k: "(0::nat) < 4000" by simp
  have e: "classes ?none = []" by simp
  note t = catalog_construction_never_raises
      [of "''data''" "[]" ?t ?cat 0 4000 16 "affine_rng 7 3" 150 counting_learner 0 "()"
          "affine_rng 5 1", THEN conjunct2, THEN conjunct1, THEN mp, THEN conjunct1]
  note t0 = catalog_construction_never_raises
      [of "''data''" "[]" "Dir []" ?none 0 4000 16 "affine_rng 7 3" 150 counting_learner 0 "()"
          "affine_rng 5 1", THEN conjunct2, THEN conjunct2, THEN mp]
  have A: "get_data_loaders ''data'' ?t 16 4000 (affine_rng 7 3) = Inl ValueError"
    by (rule t) (intro conjI i l z k)
  have B: "main ''data'' (Dir []) 16 4000 150 counting_learner 0 () (affine_rng 7 3)
             (affine_rng 5 1) = Inl ValueError"
    by (rule t0) (intro conjI i0 e)
  from A B show ?thesis by (rule conjI)
qed

end
